theory Spec2Isabelle
  imports Main "HOL-Library.Sublist"
begin

section \<open>The room monitor of matrix-rooms-bot\<close>

text \<open>
  A shallow embedding of the class \<open>RoomMonitor\<close>: the traversal of the space hierarchy
  (\<open>fetchRoomsInSpace\<close> with its inner \<open>recurseHierarchy\<close>), the poll cycle
  (\<open>checkForNewRooms\<close>), the snapshot file (\<open>loadState\<close>, \<open>saveState\<close>) and the
  scheduler (\<open>startMonitoring\<close>, \<open>stopMonitoring\<close>, the interval callback).

  The homeserver, the file system and the notification room are the environment. Every
  \<open>await\<close> is modelled by the value it resolves to; a rejected promise or a thrown
  exception is a value of type \<open>error\<close>.
\<close>

subsection \<open>JavaScript values\<close>

text \<open>A string is falsy exactly when it is empty; \<open>undefined\<close> and \<open>null\<close> are \<open>None\<close>.\<close>

definition truthy :: "string option \<Rightarrow> bool" where
  "truthy v = (case v of None \<Rightarrow> False | Some s \<Rightarrow> s \<noteq> [])"

text \<open>
  A JavaScript \<open>Set\<close> keeps its elements in insertion order and ignores a second insertion.
  It is modelled by the list of its elements in that order.
\<close>

definition set_add :: "'a \<Rightarrow> 'a list \<Rightarrow> 'a list" where
  "set_add x xs = (if x \<in> set xs then xs else xs @ [x])"

definition newSet :: "'a list \<Rightarrow> 'a list" where
  "newSet xs = foldl (\<lambda>acc x. set_add x acc) [] xs"

subsection \<open>The hierarchy endpoint\<close>

datatype error = RequestFailed string

text \<open>One entry of \<open>response.rooms\<close>, with the fields the traversal reads.\<close>

record hierarchy_room =
  hr_room_id :: string
  hr_room_type :: "string option"
  hr_name :: "string option"
  hr_canonical_alias :: "string option"
  hr_topic :: "string option"
  hr_num_joined_members :: "nat option"

record response =
  rooms :: "hierarchy_room list option"
  next_batch :: "string option"

text \<open>
  \<open>authedRequest('GET', /rooms/<spaceId>/hierarchy?limit=100[&from=<token>])\<close>: the
  answer of the homeserver to a space identifier and an optional continuation token.
  \<open>Inl\<close> is a rejected request (network failure, forbidden, malformed answer).
\<close>

type_synonym server = "string \<Rightarrow> string option \<Rightarrow> error + response"

text \<open>The record pushed to \<open>allRooms\<close> for a leaf room.\<close>

record metadata =
  room_id :: string
  name :: "string option"
  canonicalAlias :: "string option"
  topic :: string
  memberCount :: nat

definition or_null :: "string option \<Rightarrow> string option" where
  "or_null v = (if truthy v then v else None)"

definition mk_metadata :: "hierarchy_room \<Rightarrow> metadata" where
  "mk_metadata room =
     \<lparr> room_id = hr_room_id room,
       name = or_null (hr_name room),
       canonicalAlias = or_null (hr_canonical_alias room),
       topic = (case hr_topic room of None \<Rightarrow> [] | Some t \<Rightarrow> t),
       memberCount = (case hr_num_joined_members room of None \<Rightarrow> 0 | Some k \<Rightarrow> k) \<rparr>"

definition isSpace :: "hierarchy_room \<Rightarrow> bool" where
  "isSpace room = (hr_room_type room = Some ''m.space'')"

text \<open>\<open>response.rooms || []\<close>\<close>

definition rooms_or_empty :: "response \<Rightarrow> hierarchy_room list" where
  "rooms_or_empty resp = (case rooms resp of None \<Rightarrow> [] | Some rs \<Rightarrow> rs)"

subsection \<open>fetchRoomsInSpace\<close>

text \<open>
  The state the closure \<open>recurseHierarchy\<close> works on: the set \<open>visitedSpaces\<close>, the array
  \<open>allRooms\<close>, and the log of the requests sent to the homeserver (space identifier and
  \<open>from\<close> token), which is the observable effect of the traversal.
\<close>

record tstate =
  visitedSpaces :: "string list"
  allRooms :: "metadata list"
  requested :: "(string \<times> string option) list"

text \<open>
  \<open>recurseHierarchy\<close> is the closure, \<open>doWhile\<close> its \<open>do ... while (nextBatch)\<close> loop
  entered with the current \<open>nextBatch\<close>, \<open>forRooms\<close> the \<open>for (const room of rooms)\<close>
  loop. The homeserver decides how many pages and sub-spaces there are, so the loops
  need not end: the first argument is fuel, and \<open>None\<close> means that it ran out. A result
  \<open>Some (Some e, st)\<close> is the exception \<open>e\<close> thrown in state \<open>st\<close>; nothing inside the
  closure catches it, so it ends every enclosing loop.
\<close>

fun recurseHierarchy :: "nat \<Rightarrow> server \<Rightarrow> string \<Rightarrow> tstate \<Rightarrow> (error option \<times> tstate) option"
  and doWhile :: "nat \<Rightarrow> server \<Rightarrow> string \<Rightarrow> string option \<Rightarrow> tstate \<Rightarrow> (error option \<times> tstate) option"
  and forRooms :: "nat \<Rightarrow> server \<Rightarrow> hierarchy_room list \<Rightarrow> tstate \<Rightarrow> (error option \<times> tstate) option"
where
  "recurseHierarchy 0 srv spaceId st = None"
| "recurseHierarchy (Suc n) srv spaceId st =
     (if spaceId \<in> set (visitedSpaces st) then Some (None, st)
      else doWhile n srv spaceId None
             (st\<lparr>visitedSpaces := set_add spaceId (visitedSpaces st)\<rparr>))"
| "doWhile 0 srv spaceId nextBatch st = None"
| "doWhile (Suc n) srv spaceId nextBatch st =
     (let from = (if truthy nextBatch then nextBatch else None);
          st1 = st\<lparr>requested := requested st @ [(spaceId, from)]\<rparr>
      in case srv spaceId from of
           Inl e \<Rightarrow> Some (Some e, st1)
         | Inr resp \<Rightarrow>
             (case forRooms n srv (rooms_or_empty resp) st1 of
                None \<Rightarrow> None
              | Some (Some e, st2) \<Rightarrow> Some (Some e, st2)
              | Some (None, st2) \<Rightarrow>
                  if truthy (next_batch resp) then doWhile n srv spaceId (next_batch resp) st2
                  else Some (None, st2)))"
| "forRooms n srv [] st = Some (None, st)"
| "forRooms n srv (room # rest) st =
     (if isSpace room then
        (case recurseHierarchy n srv (hr_room_id room) st of
           None \<Rightarrow> None
         | Some (Some e, st1) \<Rightarrow> Some (Some e, st1)
         | Some (None, st1) \<Rightarrow> forRooms n srv rest st1)
      else forRooms n srv rest (st\<lparr>allRooms := allRooms st @ [mk_metadata room]\<rparr>))"

text \<open>
  The \<open>try\<close>/\<open>catch\<close> around the first call logs the exception and drops it; the
  rooms pushed so far are returned. The result carries the logged error beside the final
  state; the returned array is \<open>allRooms\<close> of that state.
\<close>

definition fetchRoomsInSpace :: "nat \<Rightarrow> server \<Rightarrow> string \<Rightarrow> string list \<Rightarrow> (error option \<times> tstate) option" where
  "fetchRoomsInSpace n srv spaceId visited =
     recurseHierarchy n srv spaceId \<lparr>visitedSpaces = visited, allRooms = [], requested = []\<rparr>"

subsection \<open>The traversal as a relation\<close>

text \<open>
  The runs of the three functions that return, as a relation between the state at the
  call and the outcome (the exception, if any, and the final state), one rule for each
  way through the code. Every result of the functions is a run (\<open>fuel_run\<close> below); the
  relation serves rule induction.
\<close>

inductive recursed :: "server \<Rightarrow> string \<Rightarrow> tstate \<Rightarrow> error option \<Rightarrow> tstate \<Rightarrow> bool"
  and looped :: "server \<Rightarrow> string \<Rightarrow> string option \<Rightarrow> tstate \<Rightarrow> error option \<Rightarrow> tstate \<Rightarrow> bool"
  and iterated :: "server \<Rightarrow> hierarchy_room list \<Rightarrow> tstate \<Rightarrow> error option \<Rightarrow> tstate \<Rightarrow> bool"
  for srv :: server
where
  seen: "s \<in> set (visitedSpaces st) \<Longrightarrow> recursed srv s st None st"
| expand: "s \<notin> set (visitedSpaces st) \<Longrightarrow>
     looped srv s None (st\<lparr>visitedSpaces := visitedSpaces st @ [s]\<rparr>) e st' \<Longrightarrow>
     recursed srv s st e st'"
| request_fails: "srv s (if truthy nb then nb else None) = Inl err \<Longrightarrow>
     looped srv s nb st (Some err)
       (st\<lparr>requested := requested st @ [(s, if truthy nb then nb else None)]\<rparr>)"
| page_fails: "srv s (if truthy nb then nb else None) = Inr resp \<Longrightarrow>
     iterated srv (rooms_or_empty resp)
       (st\<lparr>requested := requested st @ [(s, if truthy nb then nb else None)]\<rparr>) (Some err) st2 \<Longrightarrow>
     looped srv s nb st (Some err) st2"
| last_page: "srv s (if truthy nb then nb else None) = Inr resp \<Longrightarrow>
     iterated srv (rooms_or_empty resp)
       (st\<lparr>requested := requested st @ [(s, if truthy nb then nb else None)]\<rparr>) None st2 \<Longrightarrow>
     \<not> truthy (next_batch resp) \<Longrightarrow>
     looped srv s nb st None st2"
| more_pages: "srv s (if truthy nb then nb else None) = Inr resp \<Longrightarrow>
     iterated srv (rooms_or_empty resp)
       (st\<lparr>requested := requested st @ [(s, if truthy nb then nb else None)]\<rparr>) None st2 \<Longrightarrow>
     truthy (next_batch resp) \<Longrightarrow>
     looped srv s (next_batch resp) st2 e st' \<Longrightarrow>
     looped srv s nb st e st'"
| no_rooms: "iterated srv [] st None st"
| leaf_room: "\<not> isSpace room \<Longrightarrow>
     iterated srv rest (st\<lparr>allRooms := allRooms st @ [mk_metadata room]\<rparr>) e st' \<Longrightarrow>
     iterated srv (room # rest) st e st'"
| space_fails: "isSpace room \<Longrightarrow> recursed srv (hr_room_id room) st (Some err) st1 \<Longrightarrow>
     iterated srv (room # rest) st (Some err) st1"
| space_done: "isSpace room \<Longrightarrow> recursed srv (hr_room_id room) st None st1 \<Longrightarrow>
     iterated srv rest st1 e st' \<Longrightarrow>
     iterated srv (room # rest) st e st'"

subsection \<open>The space graph a homeserver presents\<close>

text \<open>
  The loop of \<open>recurseHierarchy\<close> asks for the first page of a space exactly when it
  starts to expand the space, and that request is the only one without a token. The
  spaces expanded so far are therefore read off the log of requests.
\<close>

definition expansions :: "tstate \<Rightarrow> string list" where
  "expansions st = map fst (filter (\<lambda>q. snd q = None) (requested st))"

text \<open>
  \<open>pages_from srv s from from'\<close>: following the continuation tokens of space \<open>s\<close> from the
  request with token \<open>from\<close> leads to the request with token \<open>from'\<close>.
\<close>

inductive pages_from :: "server \<Rightarrow> string \<Rightarrow> string option \<Rightarrow> string option \<Rightarrow> bool"
  for srv :: server and s :: string
where
  first_page: "pages_from srv s from from"
| next_page: "srv s from = Inr resp \<Longrightarrow> truthy (next_batch resp) \<Longrightarrow>
         pages_from srv s (next_batch resp) from' \<Longrightarrow> pages_from srv s from from'"

text \<open>The entries on the pages of \<open>s\<close> from token \<open>from\<close> on, and the sub-spaces of \<open>s\<close>.\<close>

definition listed_from :: "server \<Rightarrow> string \<Rightarrow> string option \<Rightarrow> hierarchy_room \<Rightarrow> bool" where
  "listed_from srv s from room =
     (\<exists>from' resp. pages_from srv s from from' \<and> srv s from' = Inr resp \<and>
                   room \<in> set (rooms_or_empty resp))"

definition child_space :: "server \<Rightarrow> string \<Rightarrow> string \<Rightarrow> bool" where
  "child_space srv s c = (\<exists>room. listed_from srv s None room \<and> isSpace room \<and> hr_room_id room = c)"

text \<open>
  A space whose listing is the non-empty sequence \<open>pages\<close> of responses: the request
  with token \<open>from\<close> is answered by the first, each response but the last carries the
  token that is answered by the next, and the last carries none.
\<close>

fun page_chain :: "server \<Rightarrow> string \<Rightarrow> string option \<Rightarrow> response list \<Rightarrow> bool" where
  "page_chain srv s from [] = False"
| "page_chain srv s from [p] = (srv s from = Inr p \<and> \<not> truthy (next_batch p))"
| "page_chain srv s from (p # q # ps) =
     (srv s from = Inr p \<and> truthy (next_batch p) \<and> page_chain srv s (next_batch p) (q # ps))"

subsection \<open>The monitor, the snapshot file and the notification room\<close>

text \<open>
  The fields of a \<open>RoomMonitor\<close>. \<open>checkInterval\<close> is \<open>config.roomMonitor?.checkInterval\<close>;
  \<open>monitoringInterval\<close> is the handle of the repeating timer, \<open>Some\<close> of its period while
  the timer is set.
\<close>

record monitor =
  observedSpace :: "string option"
  notificationRoom :: "string option"
  checkInterval :: "nat option"
  lastCheckedRooms :: "string list"
  roomNames :: "(string \<times> string) list"
  isRunning :: bool
  monitoringInterval :: "nat option"

definition new_RoomMonitor :: "string option \<Rightarrow> string option \<Rightarrow> nat option \<Rightarrow> monitor" where
  "new_RoomMonitor space room interval =
     \<lparr> observedSpace = space, notificationRoom = room, checkInterval = interval,
       lastCheckedRooms = [], roomNames = [], isRunning = False, monitoringInterval = None \<rparr>"

text \<open>
  The parsed content of the state file: the keys \<open>rooms\<close>, \<open>roomNames\<close> and
  \<open>observedSpace\<close>, each of which may be missing (\<open>lastUpdated\<close> is written and never
  read; it is left out).
\<close>

record snapshot =
  st_rooms :: "string list option"
  st_roomNames :: "(string \<times> string) list option"
  st_observedSpace :: "string option"

text \<open>
  What \<open>loadState\<close> finds: no file (\<open>existsSync\<close> is false); a file on which the
  \<open>try\<close> block throws (\<open>readFile\<close> or \<open>JSON.parse\<close> rejects it, or it parses to \<open>null\<close>);
  or a parsed value, read through its keys. \<open>loadState\<close> does not look at the shape of a
  parsed value: one without the keys, such as \<open>{}\<close>, \<open>[]\<close> or \<open>5\<close>, is the snapshot with
  every key missing.
\<close>

datatype file_state = NoFile | Unreadable | Snapshot snapshot

text \<open>
  The world outside the monitor: the state file, whether \<open>writeFile\<close> succeeds, and the
  calls of \<open>matrixClient.sendEvent\<close> made so far (target room and the room announced; the
  text of the message is a function of that room record).
\<close>

record world =
  stateFile :: file_state
  writable :: bool
  outbox :: "(string option \<times> metadata) list"

definition configured :: "monitor \<Rightarrow> bool" where
  "configured m = (truthy (observedSpace m) \<and> truthy (notificationRoom m))"

text \<open>\<open>loadState\<close>: every exception is caught and answered by \<open>false\<close>.\<close>

definition loadState :: "monitor \<Rightarrow> world \<Rightarrow> bool \<times> monitor" where
  "loadState m w =
     (case stateFile w of
        NoFile \<Rightarrow> (False, m)
      | Unreadable \<Rightarrow> (False, m)
      | Snapshot state \<Rightarrow>
          (True, m\<lparr> lastCheckedRooms := newSet (case st_rooms state of None \<Rightarrow> [] | Some rs \<Rightarrow> rs),
                    roomNames := (case st_roomNames state of None \<Rightarrow> [] | Some ns \<Rightarrow> ns) \<rparr>))"

text \<open>\<open>saveState\<close>: a failed write is logged and leaves the file as it was.\<close>

definition saveState :: "monitor \<Rightarrow> world \<Rightarrow> world" where
  "saveState m w =
     (if writable w
      then w\<lparr> stateFile := Snapshot \<lparr> st_rooms = Some (lastCheckedRooms m),
                                  st_roomNames = Some (roomNames m),
                                  st_observedSpace = observedSpace m \<rparr> \<rparr>
      else w)"

text \<open>
  \<open>sendEnhancedRoomNotification\<close>: one call of \<open>sendEvent\<close> to the notification room; a
  failed send is caught and logged, so the caller goes on either way.
\<close>

definition sendEnhancedRoomNotification :: "monitor \<Rightarrow> world \<Rightarrow> metadata \<Rightarrow> world" where
  "sendEnhancedRoomNotification m w room = w\<lparr>outbox := outbox w @ [(notificationRoom m, room)]\<rparr>"

text \<open>
  \<open>this.roomNames[room.room_id] = room.name\<close> on an object with string keys, for keys
  that are neither array indices nor \<open>__proto__\<close> (a room id starts with \<open>!\<close>): a new key
  goes last, a known key keeps its place.
\<close>

fun obj_put :: "string \<Rightarrow> string \<Rightarrow> (string \<times> string) list \<Rightarrow> (string \<times> string) list" where
  "obj_put k v [] = [(k, v)]"
| "obj_put k v ((k', v') # kvs) = (if k' = k then (k, v) # kvs else (k', v') # obj_put k v kvs)"

definition rememberName :: "(string \<times> string) list \<Rightarrow> metadata \<Rightarrow> (string \<times> string) list" where
  "rememberName names room =
     (case name room of
        None \<Rightarrow> names
      | Some nm \<Rightarrow> if nm \<noteq> [] \<and> nm \<noteq> room_id room then obj_put (room_id room) nm names else names)"

subsection \<open>The poll cycle\<close>

record poll_result =
  checked :: nat
  new :: nat

text \<open>
  \<open>checkForNewRooms(shouldAlert)\<close>. \<open>Some (None, _)\<close> is the return without a value when
  the monitor is not configured. \<open>fetchRoomsInSpace\<close> catches its own exceptions, as do
  \<open>sendEnhancedRoomNotification\<close> and \<open>saveState\<close>, so the \<open>catch\<close> branch of the cycle has
  nothing to catch here. \<open>None\<close> is a traversal that ran out of fuel.
\<close>

definition checkForNewRooms ::
  "nat \<Rightarrow> server \<Rightarrow> bool \<Rightarrow> monitor \<times> world \<Rightarrow> (poll_result option \<times> monitor \<times> world) option" where
  "checkForNewRooms n srv shouldAlert mw =
     (let m = fst mw; w = snd mw in
      if \<not> configured m then Some (None, m, w)
      else
        (case fetchRoomsInSpace n srv (case observedSpace m of None \<Rightarrow> [] | Some s \<Rightarrow> s) [] of
           None \<Rightarrow> None
         | Some (logged, st) \<Rightarrow>
             (let rooms = allRooms st;
                  currentRoomIds = newSet (map room_id rooms);
                  newRooms = filter (\<lambda>room. room_id room \<notin> set (lastCheckedRooms m)) rooms;
                  m1 = m\<lparr>roomNames := foldl rememberName (roomNames m) newRooms\<rparr>;
                  w1 = (if shouldAlert \<and> length newRooms > 0
                        then foldl (sendEnhancedRoomNotification m1) w newRooms else w);
                  m2 = m1\<lparr>lastCheckedRooms := currentRoomIds\<rparr>;
                  w2 = saveState m2 w1
              in Some (Some \<lparr>checked = length currentRoomIds, new = length newRooms\<rparr>, m2, w2))))"

subsection \<open>The scheduler\<close>

text \<open>
  \<open>startMonitoring\<close> up to the point where the timer is set: the flag, \<open>loadState\<close>, the
  first cycle (which alerts only when a snapshot was loaded), then \<open>setInterval\<close>.
\<close>

definition startMonitoring :: "nat \<Rightarrow> server \<Rightarrow> monitor \<times> world \<Rightarrow> (monitor \<times> world) option" where
  "startMonitoring n srv mw =
     (let m = fst mw; w = snd mw in
      if isRunning m then Some (m, w)
      else if \<not> configured m then Some (m, w)
      else
        (let m1 = m\<lparr>isRunning := True\<rparr>;
             hasExistingState = fst (loadState m1 w);
             m2 = snd (loadState m1 w)
         in case checkForNewRooms n srv hasExistingState (m2, w) of
              None \<Rightarrow> None
            | Some (res, m3, w3) \<Rightarrow>
                Some (m3\<lparr>monitoringInterval :=
                           Some (case checkInterval m3 of None \<Rightarrow> 300000
                                 | Some i \<Rightarrow> if i = 0 then 300000 else i)\<rparr>, w3)))"

definition stopMonitoring :: "monitor \<Rightarrow> monitor" where
  "stopMonitoring m = m\<lparr>monitoringInterval := None, isRunning := False\<rparr>"

text \<open>The callback given to \<open>setInterval\<close>, run to its end without another callback in between.\<close>

definition intervalCallback :: "nat \<Rightarrow> server \<Rightarrow> monitor \<times> world \<Rightarrow> (monitor \<times> world) option" where
  "intervalCallback n srv mw =
     (if isRunning (fst mw)
      then (case checkForNewRooms n srv True mw of None \<Rightarrow> None | Some (res, m, w) \<Rightarrow> Some (m, w))
      else Some mw)"

text \<open>
  A run of the scheduler in which every cycle ends before the next one starts: one
  homeserver state per firing of the timer.
\<close>

fun runCallbacks :: "nat \<Rightarrow> server list \<Rightarrow> monitor \<times> world \<Rightarrow> (monitor \<times> world) option" where
  "runCallbacks n [] mw = Some mw"
| "runCallbacks n (srv # srvs) mw =
     (case intervalCallback n srv mw of None \<Rightarrow> None | Some mw' \<Rightarrow> runCallbacks n srvs mw')"

subsection \<open>Finite space graphs as homeservers\<close>

text \<open>
  A finite space graph: for each space the pages of its child listing, in order; a page
  is the list of its entries, or a request that fails. A space that is not listed is
  unknown to the homeserver. The continuation token that leads to page \<open>i\<close> is a string of
  length \<open>i\<close>, and the last page of a space carries no token.
\<close>

type_synonym hierarchy = "(string \<times> (error + hierarchy_room list) list) list"

definition page_token :: "nat \<Rightarrow> string" where
  "page_token i = replicate i (CHR ''t'')"

definition page_index :: "string option \<Rightarrow> nat" where
  "page_index from = (case from of None \<Rightarrow> 0 | Some t \<Rightarrow> length t)"

definition server_of :: "hierarchy \<Rightarrow> server" where
  "server_of G spaceId from =
     (case map_of G spaceId of
        None \<Rightarrow> Inl (RequestFailed ''unknown space'')
      | Some pages \<Rightarrow>
          if page_index from < length pages then
            (case pages ! page_index from of
               Inl e \<Rightarrow> Inl e
             | Inr entries \<Rightarrow>
                 Inr \<lparr> rooms = Some entries,
                       next_batch = (if Suc (page_index from) < length pages
                                     then Some (page_token (Suc (page_index from))) else None) \<rparr>)
          else Inl (RequestFailed ''unknown token''))"

definition leaf :: "string \<Rightarrow> hierarchy_room" where
  "leaf rid = \<lparr> hr_room_id = rid, hr_room_type = None, hr_name = None,
                hr_canonical_alias = None, hr_topic = None, hr_num_joined_members = None \<rparr>"

definition subspace :: "string \<Rightarrow> hierarchy_room" where
  "subspace sid = \<lparr> hr_room_id = sid, hr_room_type = Some ''m.space'', hr_name = None,
                    hr_canonical_alias = None, hr_topic = None, hr_num_joined_members = None \<rparr>"

text \<open>The record \<open>fetchRoomsInSpace\<close> returns for \<open>leaf rid\<close>.\<close>

definition plain :: "string \<Rightarrow> metadata" where
  "plain rid = \<lparr> room_id = rid, name = None, canonicalAlias = None, topic = [], memberCount = 0 \<rparr>"

subsection \<open>fetchRoomsInSpace of room-monitor.js\<close>

text \<open>
  The second implementation of the traversal, in \<open>room-monitor.js\<close>, reads the state
  events of a space (\<open>GET /rooms/<spaceId>/state\<close>) and takes the \<open>m.space.child\<close>
  events as the children. An event is modelled by its type, its state key, and the fields
  \<open>name\<close> and \<open>room_type\<close> of its content.
\<close>

record state_event =
  ev_type :: string
  ev_state_key :: string
  ev_content_name :: "string option"
  ev_content_room_type :: "string option"

text \<open>The answer of the homeserver: a rejected request, a falsy response, or the events.\<close>

type_synonym state_server = "string \<Rightarrow> error + state_event list option"

record child_room =
  cr_room_id :: string
  cr_name :: string

definition child_of_event :: "state_event \<Rightarrow> child_room" where
  "child_of_event ev =
     \<lparr> cr_room_id = ev_state_key ev,
       cr_name = (if truthy (ev_content_name ev)
                  then (case ev_content_name ev of None \<Rightarrow> ev_state_key ev | Some nm \<Rightarrow> nm)
                  else ev_state_key ev) \<rparr>"

definition child_events :: "state_event list \<Rightarrow> state_event list" where
  "child_events evs = filter (\<lambda>ev. ev_type ev = ''m.space.child'') evs"

text \<open>
  \<open>fetchRoomsInSpace_state\<close> is the method, \<open>forSubspaces\<close> its loop over the sub-spaces
  with the rooms collected so far. The method catches every exception and answers \<open>[]\<close>,
  so the \<open>try\<close> inside the loop has nothing to catch. The visited set is shared by all
  calls and is returned beside the rooms. The first argument is fuel.
\<close>

fun fetchRoomsInSpace_state ::
    "nat \<Rightarrow> state_server \<Rightarrow> string \<Rightarrow> string list \<Rightarrow> (child_room list \<times> string list) option"
  and forSubspaces ::
    "nat \<Rightarrow> state_server \<Rightarrow> child_room list \<Rightarrow> child_room list \<Rightarrow> string list \<Rightarrow>
       (child_room list \<times> string list) option"
where
  "fetchRoomsInSpace_state 0 srv spaceId visited = None"
| "fetchRoomsInSpace_state (Suc n) srv spaceId visited =
     (if spaceId \<in> set visited then Some ([], visited)
      else
        (case srv spaceId of
           Inl e \<Rightarrow> Some ([], set_add spaceId visited)
         | Inr None \<Rightarrow> Some ([], set_add spaceId visited)
         | Inr (Some response) \<Rightarrow>
             forSubspaces n srv
               (map child_of_event
                  (filter (\<lambda>ev. ev_content_room_type ev = Some ''m.space'') (child_events response)))
               (map child_of_event
                  (filter (\<lambda>ev. ev_content_room_type ev \<noteq> Some ''m.space'') (child_events response)))
               (set_add spaceId visited)))"
| "forSubspaces n srv [] found visited = Some (found, visited)"
| "forSubspaces n srv (sub # subs) found visited =
     (case fetchRoomsInSpace_state n srv (cr_room_id sub) visited of
        None \<Rightarrow> None
      | Some (subspaceRooms, visited1) \<Rightarrow> forSubspaces n srv subs (found @ subspaceRooms) visited1)"

subsection \<open>The scheduler with overlapping cycles\<close>

text \<open>
  \<open>setInterval\<close> calls its callback at every period, whether or not the promise of an
  earlier call has settled. The callback tests \<open>isRunning\<close> and enters
  \<open>checkForNewRooms(true)\<close>, which (when the monitor is configured) suspends at its first
  \<open>await\<close>. The state below counts the invocations of \<open>checkForNewRooms\<close> that were
  entered by the timer and have not returned yet; the events are a firing of the timer,
  the return of one suspended invocation, and a call of \<open>stopMonitoring\<close>. A timer that
  is not set does not fire.
\<close>

record scheduler =
  mon :: monitor
  inFlight :: nat

datatype event = TimerFires | CycleReturns | StopMonitoring

fun step :: "scheduler \<Rightarrow> event \<Rightarrow> scheduler" where
  "step s TimerFires =
     (if monitoringInterval (mon s) \<noteq> None \<and> isRunning (mon s) \<and> configured (mon s)
      then s\<lparr>inFlight := Suc (inFlight s)\<rparr> else s)"
| "step s CycleReturns = s\<lparr>inFlight := inFlight s - 1\<rparr>"
| "step s StopMonitoring = s\<lparr>mon := stopMonitoring (mon s)\<rparr>"

definition run :: "scheduler \<Rightarrow> event list \<Rightarrow> scheduler" where
  "run s evs = foldl step s evs"

subsection \<open>Example hierarchies\<close>

text \<open>A space with the three rooms \<open>r1\<close>, \<open>r2\<close>, \<open>r3\<close> on one page.\<close>

definition three_rooms :: hierarchy where
  "three_rooms = [(''S'', [Inr [leaf ''r1'', leaf ''r2'', leaf ''r3'']])]"

text \<open>The same space with the single room \<open>r1\<close>, and with no room at all.\<close>

definition one_room :: hierarchy where
  "one_room = [(''S'', [Inr [leaf ''r1'']])]"

definition no_room :: hierarchy where
  "no_room = [(''S'', [Inr []])]"

text \<open>A homeserver on which the request for the root space fails.\<close>

definition unreachable_root :: hierarchy where
  "unreachable_root = [(''S'', [Inl (RequestFailed ''timeout'')])]"

text \<open>Two spaces that list each other, with a room each.\<close>

definition two_cycle :: hierarchy where
  "two_cycle = [(''A'', [Inr [subspace ''B'', leaf ''r1'']]),
                (''B'', [Inr [subspace ''A'', leaf ''r2'']])]"

text \<open>A space whose listing has three pages.\<close>

definition three_pages :: hierarchy where
  "three_pages = [(''S'', [Inr [leaf ''r1'', leaf ''r2''], Inr [leaf ''r3''], Inr [leaf ''r4'']])]"

text \<open>
  A root that lists the sub-spaces \<open>X\<close> and \<open>Y\<close>, in this order: the request for \<open>X\<close>
  fails, \<open>Y\<close> holds the rooms \<open>r5\<close> and \<open>r6\<close>.
\<close>

definition broken_branch :: hierarchy where
  "broken_branch = [(''root'', [Inr [subspace ''X'', subspace ''Y'']]),
                    (''X'', [Inl (RequestFailed ''forbidden'')]),
                    (''Y'', [Inr [leaf ''r5'', leaf ''r6'']])]"

text \<open>A monitor as the constructor leaves it, and a world without a state file.\<close>

definition fresh_monitor :: monitor where
  "fresh_monitor = new_RoomMonitor (Some ''S'') (Some ''N'') None"

definition empty_world :: world where
  "empty_world = \<lparr> stateFile = NoFile, writable = True, outbox = [] \<rparr>"


text \<open>The monitor after a start: the flag is set and the timer runs.\<close>

definition running_monitor :: monitor where
  "running_monitor = fresh_monitor\<lparr>isRunning := True, monitoringInterval := Some 300000\<rparr>"

text \<open>The hierarchy \<open>broken_branch\<close> as the state endpoint presents it.\<close>

definition child_event :: "string \<Rightarrow> string option \<Rightarrow> state_event" where
  "child_event key ty = \<lparr> ev_type = ''m.space.child'', ev_state_key = key,
                          ev_content_name = None, ev_content_room_type = ty \<rparr>"

definition broken_branch_state :: state_server where
  "broken_branch_state spaceId =
     (if spaceId = ''root''
      then Inr (Some [child_event ''X'' (Some ''m.space''), child_event ''Y'' (Some ''m.space'')])
      else if spaceId = ''Y''
      then Inr (Some [child_event ''r5'' None, child_event ''r6'' None])
      else Inl (RequestFailed ''forbidden''))"

text \<open>A room that is listed under two sub-spaces of the observed space.\<close>

definition shared_room :: hierarchy where
  "shared_room = [(''S'', [Inr [subspace ''A'', subspace ''B'']]),
                  (''A'', [Inr [leaf ''r1'']]),
                  (''B'', [Inr [leaf ''r1'']])]"

section \<open>Properties\<close>

subsection \<open>Sets, notifications and the poll cycle\<close>

lemma set_foldl_set_add: "set (foldl (\<lambda>acc x. set_add x acc) acc xs) = set acc \<union> set xs"
  by (induction xs arbitrary: acc) (auto simp: set_add_def)

lemma distinct_foldl_set_add:
  "distinct acc \<Longrightarrow> distinct (foldl (\<lambda>acc x. set_add x acc) acc xs)"
  by (induction xs arbitrary: acc) (auto simp: set_add_def)

lemma set_newSet: "set (newSet xs) = set xs"
  by (simp add: newSet_def set_foldl_set_add)

lemma distinct_newSet: "distinct (newSet xs)"
  by (simp add: newSet_def distinct_foldl_set_add)

lemma length_newSet: "length (newSet xs) = card (set xs)"
  using distinct_card [OF distinct_newSet, of xs] by (simp add: set_newSet)

lemma foldl_send:
  "foldl (sendEnhancedRoomNotification m) w rs =
     w\<lparr>outbox := outbox w @ map (\<lambda>r. (notificationRoom m, r)) rs\<rparr>"
  by (induction rs arbitrary: w) (simp_all add: sendEnhancedRoomNotification_def)

lemma outbox_saveState: "outbox (saveState m w) = outbox w"
  by (simp add: saveState_def)

text \<open>The cycle of a configured monitor, once the traversal has returned.\<close>

lemma checkForNewRooms_eq:
  assumes "configured m" and "observedSpace m = Some space"
    and "fetchRoomsInSpace n srv space [] = Some (logged, st)"
  shows "checkForNewRooms n srv alert (m, w) =
     Some (Some \<lparr>checked = length (newSet (map room_id (allRooms st))),
                  new = length (filter (\<lambda>room. room_id room \<notin> set (lastCheckedRooms m)) (allRooms st))\<rparr>,
           m\<lparr>roomNames := foldl rememberName (roomNames m)
                             (filter (\<lambda>room. room_id room \<notin> set (lastCheckedRooms m)) (allRooms st)),
              lastCheckedRooms := newSet (map room_id (allRooms st))\<rparr>,
           saveState
             (m\<lparr>roomNames := foldl rememberName (roomNames m)
                             (filter (\<lambda>room. room_id room \<notin> set (lastCheckedRooms m)) (allRooms st)),
              lastCheckedRooms := newSet (map room_id (allRooms st))\<rparr>)
             (w\<lparr>outbox := outbox w @
                  (if alert then map (\<lambda>r. (notificationRoom m, r))
                       (filter (\<lambda>room. room_id room \<notin> set (lastCheckedRooms m)) (allRooms st))
                   else [])\<rparr>))"
  using assms by (simp add: checkForNewRooms_def Let_def foldl_send)

text \<open>Evaluating the examples.\<close>

lemmas example_defs =
  three_rooms_def one_room_def no_room_def unreachable_root_def two_cycle_def three_pages_def
  broken_branch_def fresh_monitor_def empty_world_def new_RoomMonitor_def
  server_of_def page_index_def page_token_def leaf_def subspace_def plain_def

lemmas eval_defs =
  fetchRoomsInSpace_def set_add_def truthy_def isSpace_def mk_metadata_def or_null_def
  rooms_or_empty_def
  Let_def numeral_nat configured_def

lemma fetch_three_rooms:
  "fetchRoomsInSpace 5 (server_of three_rooms) ''S'' [] =
     Some (None, \<lparr> visitedSpaces = [''S''],
                   allRooms = [plain ''r1'', plain ''r2'', plain ''r3''],
                   requested = [(''S'', None)] \<rparr>)"
  by (simp add: example_defs eval_defs)

lemma configured_fresh: "configured fresh_monitor"
  by (simp add: example_defs eval_defs)

text \<open>
  C6. The diff step of a cycle is a function of the fetched rooms and of the known set
  alone: after the cycle the known set holds exactly the ids of the fetched rooms (each
  once), and the rooms announced, in the order of announcement, are the fetched rooms
  whose id was not known, in the order of discovery; the result counts both.
\<close>

theorem diff_step:
  assumes "configured m" and "observedSpace m = Some space"
    and "fetchRoomsInSpace n srv space [] = Some (logged, st)"
  shows "\<exists>res m' w'.
     checkForNewRooms n srv True (m, w) = Some (Some res, m', w') \<and>
     set (lastCheckedRooms m') = room_id ` set (allRooms st) \<and>
     distinct (lastCheckedRooms m') \<and>
     checked res = card (room_id ` set (allRooms st)) \<and>
     map snd (drop (length (outbox w)) (outbox w')) =
       filter (\<lambda>room. room_id room \<notin> set (lastCheckedRooms m)) (allRooms st) \<and>
     new res = length (filter (\<lambda>room. room_id room \<notin> set (lastCheckedRooms m)) (allRooms st))"
  by (simp add: checkForNewRooms_eq [OF assms] set_newSet distinct_newSet length_newSet
      outbox_saveState comp_def)

theorem diff_step_witness:
  "\<exists>res m' w'.
     checkForNewRooms 5 (server_of three_rooms) True
        (fresh_monitor\<lparr>lastCheckedRooms := [''r2'', ''r0'']\<rparr>, empty_world) = Some (Some res, m', w') \<and>
     set (lastCheckedRooms m') = {''r1'', ''r2'', ''r3''} \<and>
     distinct (lastCheckedRooms m') \<and>
     checked res = 3 \<and>
     map snd (drop (length (outbox empty_world)) (outbox w')) = [plain ''r1'', plain ''r3''] \<and>
     new res = 2"
proof -
  have c: "configured (fresh_monitor\<lparr>lastCheckedRooms := [''r2'', ''r0'']\<rparr>)"
    by (simp add: example_defs eval_defs)
  have o: "observedSpace (fresh_monitor\<lparr>lastCheckedRooms := [''r2'', ''r0'']\<rparr>) = Some ''S''"
    by (simp add: example_defs)
  show ?thesis
    using diff_step [OF c o fetch_three_rooms, of empty_world]
    by (simp add: plain_def fresh_monitor_def new_RoomMonitor_def numeral_2_eq_2 numeral_3_eq_3)
qed

lemma stateFile_saveState:
  "stateFile (saveState m w) =
     (if writable w
      then Snapshot \<lparr> st_rooms = Some (lastCheckedRooms m), st_roomNames = Some (roomNames m),
                      st_observedSpace = observedSpace m \<rparr>
      else stateFile w)"
  by (simp add: saveState_def)

lemma no_new_rooms: "filter (\<lambda>room. room_id room \<notin> set (newSet (map room_id rs))) rs = []"
  by (simp add: set_newSet filter_empty_conv)

lemma loadState_absent:
  "stateFile w = NoFile \<or> stateFile w = Unreadable \<Longrightarrow> loadState m w = (False, m)"
  by (auto simp: loadState_def)

text \<open>A start that finds no usable snapshot: the first cycle runs without alerts.\<close>

lemma startMonitoring_baseline:
  assumes "stateFile w = NoFile \<or> stateFile w = Unreadable"
    and "\<not> isRunning m" and "configured m" and "observedSpace m = Some space"
    and "fetchRoomsInSpace n srv space [] = Some (logged, st)"
  shows "\<exists>m' w'. startMonitoring n srv (m, w) = Some (m', w') \<and>
           isRunning m' \<and> monitoringInterval m' \<noteq> None \<and>
           lastCheckedRooms m' = newSet (map room_id (allRooms st)) \<and>
           outbox w' = outbox w \<and>
           stateFile w' =
             (if writable w
              then Snapshot \<lparr> st_rooms = Some (lastCheckedRooms m'), st_roomNames = Some (roomNames m'),
                              st_observedSpace = observedSpace m' \<rparr>
              else stateFile w)"
proof -
  have c: "configured (m\<lparr>isRunning := True\<rparr>)"
    using assms(3) by (simp add: configured_def)
  have o: "observedSpace (m\<lparr>isRunning := True\<rparr>) = Some space"
    using assms(4) by simp
  show ?thesis
    using assms(2,3)
    by (simp add: startMonitoring_def loadState_absent [OF assms(1)]
        checkForNewRooms_eq [OF c o assms(5)] outbox_saveState stateFile_saveState)
qed

lemmas cycle_defs =
  startMonitoring_def loadState_def checkForNewRooms_def saveState_def intervalCallback_def
  sendEnhancedRoomNotification_def rememberName_def newSet_def stopMonitoring_def

lemma fetch_unreachable_root:
  "fetchRoomsInSpace 5 (server_of unreachable_root) ''S'' [] =
     Some (Some (RequestFailed ''timeout''),
           \<lparr> visitedSpaces = [''S''], allRooms = [], requested = [(''S'', None)] \<rparr>)"
  by (simp add: example_defs eval_defs)

lemma fetch_one_room:
  "fetchRoomsInSpace 5 (server_of one_room) ''S'' [] =
     Some (None, \<lparr> visitedSpaces = [''S''], allRooms = [plain ''r1''], requested = [(''S'', None)] \<rparr>)"
  by (simp add: example_defs eval_defs)




text \<open>
  C7. A start that finds no state file runs its first cycle without sending anything,
  and the known set after it is the set of the fetched room ids; when the write of the
  state file succeeds, the file holds exactly that set.
\<close>

theorem baseline_suppression:
  assumes "stateFile w = NoFile"
    and "\<not> isRunning m" and "configured m" and "observedSpace m = Some space"
    and "fetchRoomsInSpace n srv space [] = Some (logged, st)"
  shows "\<exists>m' w'. startMonitoring n srv (m, w) = Some (m', w') \<and>
           outbox w' = outbox w \<and>
           set (lastCheckedRooms m') = room_id ` set (allRooms st) \<and>
           (writable w \<longrightarrow>
              (\<exists>snap. stateFile w' = Snapshot snap \<and> st_rooms snap = Some (lastCheckedRooms m')))"
proof -
  have "stateFile w = NoFile \<or> stateFile w = Unreadable"
    using assms(1) by simp
  from startMonitoring_baseline [OF this assms(2-5)]
  obtain m' w' where s: "startMonitoring n srv (m, w) = Some (m', w')"
    and k: "lastCheckedRooms m' = newSet (map room_id (allRooms st))"
    and ob: "outbox w' = outbox w"
    and f: "stateFile w' =
             (if writable w
              then Snapshot \<lparr> st_rooms = Some (lastCheckedRooms m'), st_roomNames = Some (roomNames m'),
                              st_observedSpace = observedSpace m' \<rparr>
              else stateFile w)"
    by blast
  show ?thesis
    using s k ob f by (simp add: set_newSet)
qed

theorem baseline_suppression_witness:
  "\<exists>m' w'. startMonitoring 5 (server_of three_rooms) (fresh_monitor, empty_world) = Some (m', w') \<and>
           outbox w' = outbox empty_world \<and>
           set (lastCheckedRooms m') = {''r1'', ''r2'', ''r3''} \<and>
           (\<exists>snap. stateFile w' = Snapshot snap \<and> st_rooms snap = Some (lastCheckedRooms m'))"
proof -
  have a: "stateFile empty_world = NoFile" and b: "\<not> isRunning fresh_monitor"
    and c: "observedSpace fresh_monitor = Some ''S''" and d: "writable empty_world"
    by (simp_all add: empty_world_def fresh_monitor_def new_RoomMonitor_def)
  have ids: "room_id ` set (allRooms \<lparr> visitedSpaces = [''S''],
                   allRooms = [plain ''r1'', plain ''r2'', plain ''r3''],
                   requested = [(''S'', None)] \<rparr>) = {''r1'', ''r2'', ''r3''}"
    by (simp add: plain_def)
  from baseline_suppression [OF a b configured_fresh c fetch_three_rooms] d ids
  show ?thesis by simp
qed

text \<open>A completed cycle of a configured monitor is the one described by \<open>checkForNewRooms_eq\<close>.\<close>

lemma checkForNewRooms_cases:
  assumes "configured m" and "observedSpace m = Some space"
    and "checkForNewRooms n srv alert (m, w) = Some (res, m', w')"
  obtains logged st where "fetchRoomsInSpace n srv space [] = Some (logged, st)"
proof (cases "fetchRoomsInSpace n srv space []")
  case None
  with assms show ?thesis by (simp add: checkForNewRooms_def)
next
  case (Some r)
  then show ?thesis using that by (cases r) simp
qed

text \<open>
  C8. A second cycle over the same hierarchy finds no new room, sends nothing and leaves
  the known set as the first cycle left it; when the first cycle wrote the state file,
  the file after the second cycle is the same (whether or not the second write succeeds).
\<close>

theorem idempotent_cycle:
  assumes "configured m" and "observedSpace m = Some space"
    and "fetchRoomsInSpace n srv space [] = Some (logged, st)"
    and "checkForNewRooms n srv a1 (m, w) = Some (res1, m1, w1)"
  shows "\<exists>res2 m2 w2.
     checkForNewRooms n srv a2 (m1, w1\<lparr>writable := b\<rparr>) = Some (Some res2, m2, w2) \<and>
     new res2 = 0 \<and> outbox w2 = outbox w1 \<and>
     lastCheckedRooms m2 = lastCheckedRooms m1 \<and>
     (writable w \<longrightarrow> stateFile w2 = stateFile w1)"
proof -
  let ?new = "filter (\<lambda>room. room_id room \<notin> set (lastCheckedRooms m)) (allRooms st)"
  let ?m1 = "m\<lparr>roomNames := foldl rememberName (roomNames m) ?new,
               lastCheckedRooms := newSet (map room_id (allRooms st))\<rparr>"
  have m1: "m1 = ?m1"
    and w1: "w1 = saveState ?m1 (w\<lparr>outbox := outbox w @
                  (if a1 then map (\<lambda>r. (notificationRoom m, r)) ?new else [])\<rparr>)"
    using assms(4) unfolding checkForNewRooms_eq [OF assms(1-3)] by auto
  have c: "configured m1" using assms(1) m1 by (simp add: configured_def)
  have o: "observedSpace m1 = Some space" using assms(2) m1 by simp
  have k: "lastCheckedRooms m1 = newSet (map room_id (allRooms st))" using m1 by simp
  have f: "writable w \<Longrightarrow> stateFile w1 =
      Snapshot \<lparr> st_rooms = Some (lastCheckedRooms m1), st_roomNames = Some (roomNames m1),
                 st_observedSpace = observedSpace m1 \<rparr>"
    using w1 m1 by (simp add: stateFile_saveState)
  show ?thesis
    using f by (simp add: checkForNewRooms_eq [OF c o assms(3)] k no_new_rooms outbox_saveState
        stateFile_saveState)
qed

theorem idempotent_cycle_witness:
  "\<exists>res1 m1 w1 res2 m2 w2.
     checkForNewRooms 5 (server_of three_rooms) True (fresh_monitor, empty_world) = Some (res1, m1, w1) \<and>
     checkForNewRooms 5 (server_of three_rooms) True (m1, w1\<lparr>writable := True\<rparr>) = Some (Some res2, m2, w2) \<and>
     new res2 = 0 \<and> outbox w2 = outbox w1 \<and>
     lastCheckedRooms m2 = lastCheckedRooms m1 \<and> stateFile w2 = stateFile w1"
proof -
  have o: "observedSpace fresh_monitor = Some ''S''" and d: "writable empty_world"
    by (simp_all add: empty_world_def fresh_monitor_def new_RoomMonitor_def)
  obtain res1 m1 w1 where
    first: "checkForNewRooms 5 (server_of three_rooms) True (fresh_monitor, empty_world) = Some (res1, m1, w1)"
    using checkForNewRooms_eq [OF configured_fresh o fetch_three_rooms, of True empty_world] by blast
  from idempotent_cycle [OF configured_fresh o fetch_three_rooms first, of True True] d first
  show ?thesis by blast
qed

lemma fetch_root_fails:
  "srv space None = Inl e \<Longrightarrow>
   fetchRoomsInSpace (Suc (Suc k)) srv space [] =
     Some (Some e, \<lparr> visitedSpaces = [space], allRooms = [], requested = [(space, None)] \<rparr>)"
  by (simp add: fetchRoomsInSpace_def set_add_def truthy_def)

text \<open>
  C10. A cycle whose traversal returns no room (for one, because the first request for
  the root space fails) empties the known set and, when the write succeeds, the state
  file; the next cycle then announces every room it fetches.
\<close>

theorem empty_traversal_forgets:
  assumes "configured m" and "observedSpace m = Some space"
    and "(\<exists>logged st. fetchRoomsInSpace n srv space [] = Some (logged, st) \<and> allRooms st = []) \<or>
         (2 \<le> n \<and> (\<exists>e. srv space None = Inl e))"
    and "fetchRoomsInSpace n' srv' space [] = Some (logged', st')"
  shows "\<exists>res m1 w1 res' m2 w2.
     checkForNewRooms n srv alert (m, w) = Some (Some res, m1, w1) \<and>
     lastCheckedRooms m1 = [] \<and> checked res = 0 \<and>
     (writable w \<longrightarrow> (\<exists>snap. stateFile w1 = Snapshot snap \<and> st_rooms snap = Some [])) \<and>
     checkForNewRooms n' srv' True (m1, w1) = Some (Some res', m2, w2) \<and>
     map snd (drop (length (outbox w1)) (outbox w2)) = allRooms st' \<and>
     new res' = length (allRooms st')"
proof -
  have "\<exists>logged st. fetchRoomsInSpace n srv space [] = Some (logged, st) \<and> allRooms st = []"
  proof (rule disjE [OF assms(3)])
    assume "2 \<le> n \<and> (\<exists>e. srv space None = Inl e)"
    then obtain k e where "n = Suc (Suc k)" and "srv space None = Inl e"
      by (auto simp: numeral_2_eq_2 Suc_le_eq dest!: less_imp_Suc_add)
    then show ?thesis
      using fetch_root_fails [of srv space e k] by simp
  qed
  then obtain logged st where f: "fetchRoomsInSpace n srv space [] = Some (logged, st)"
    and e: "allRooms st = []"
    by blast
  let ?m1 = "m\<lparr>lastCheckedRooms := []\<rparr>"
  have c: "configured ?m1" using assms(1) by (simp add: configured_def)
  have o: "observedSpace ?m1 = Some space" using assms(2) by simp
  show ?thesis
    by (simp add: checkForNewRooms_eq [OF assms(1,2) f] e newSet_def
        checkForNewRooms_eq [OF c o assms(4)] stateFile_saveState outbox_saveState comp_def)
qed

theorem empty_traversal_forgets_witness:
  "\<exists>res m1 w1 res' m2 w2.
     checkForNewRooms 5 (server_of unreachable_root) True
        (fresh_monitor\<lparr>lastCheckedRooms := [''r1'', ''r2'', ''r3'']\<rparr>, empty_world) = Some (Some res, m1, w1) \<and>
     lastCheckedRooms m1 = [] \<and> checked res = 0 \<and>
     (\<exists>snap. stateFile w1 = Snapshot snap \<and> st_rooms snap = Some []) \<and>
     checkForNewRooms 5 (server_of three_rooms) True (m1, w1) = Some (Some res', m2, w2) \<and>
     map snd (drop (length (outbox w1)) (outbox w2)) = [plain ''r1'', plain ''r2'', plain ''r3''] \<and>
     new res' = 3"
proof -
  have c: "configured (fresh_monitor\<lparr>lastCheckedRooms := [''r1'', ''r2'', ''r3'']\<rparr>)"
    by (simp add: example_defs eval_defs)
  have o: "observedSpace (fresh_monitor\<lparr>lastCheckedRooms := [''r1'', ''r2'', ''r3'']\<rparr>) = Some ''S''"
    by (simp add: example_defs)
  have d: "writable empty_world"
    by (simp add: empty_world_def)
  have "server_of unreachable_root ''S'' None = Inl (RequestFailed ''timeout'')"
    by (simp add: example_defs)
  then have h: "(\<exists>logged st. fetchRoomsInSpace 5 (server_of unreachable_root) ''S'' [] = Some (logged, st)
                   \<and> allRooms st = []) \<or>
         (2 \<le> (5::nat) \<and> (\<exists>e. server_of unreachable_root ''S'' None = Inl e))"
    by simp
  from empty_traversal_forgets [OF c o h fetch_three_rooms, of True empty_world] d
  show ?thesis by (simp add: numeral_3_eq_3)
qed

lemma fetch_no_room:
  "fetchRoomsInSpace 5 (server_of no_room) ''S'' [] =
     Some (None, \<lparr> visitedSpaces = [''S''], allRooms = [], requested = [(''S'', None)] \<rparr>)"
  by (simp add: example_defs eval_defs)

text \<open>
  While a room stays in every fetched list, the callbacks announce nothing for it and it
  stays known.
\<close>

lemma known_room_not_announced:
  assumes "configured m" and "observedSpace m = Some space"
    and "x \<in> set (lastCheckedRooms m)"
    and "\<forall>srv\<in>set srvs. \<exists>logged st.
           fetchRoomsInSpace n srv space [] = Some (logged, st) \<and> x \<in> room_id ` set (allRooms st)"
  shows "\<exists>m' w' sent. runCallbacks n srvs (m, w) = Some (m', w') \<and>
           outbox w' = outbox w @ sent \<and> x \<notin> room_id ` snd ` set sent"
  using assms
proof (induction srvs arbitrary: m w)
  case Nil
  then show ?case by simp
next
  case (Cons srv srvs)
  from Cons.prems(4) obtain logged st
    where f: "fetchRoomsInSpace n srv space [] = Some (logged, st)"
      and x: "x \<in> room_id ` set (allRooms st)"
    by auto
  have rest: "\<forall>srv\<in>set srvs. \<exists>logged st.
           fetchRoomsInSpace n srv space [] = Some (logged, st) \<and> x \<in> room_id ` set (allRooms st)"
    using Cons.prems(4) by simp
  show ?case
  proof (cases "isRunning m")
    case False
    from Cons.IH [OF Cons.prems(1-3) rest, of w] False
    show ?thesis by (simp add: intervalCallback_def)
  next
    case True
    let ?new = "filter (\<lambda>room. room_id room \<notin> set (lastCheckedRooms m)) (allRooms st)"
    let ?m1 = "m\<lparr>roomNames := foldl rememberName (roomNames m) ?new,
                 lastCheckedRooms := newSet (map room_id (allRooms st))\<rparr>"
    let ?w1 = "saveState ?m1 (w\<lparr>outbox := outbox w @ map (\<lambda>r. (notificationRoom m, r)) ?new\<rparr>)"
    have cb: "intervalCallback n srv (m, w) = Some (?m1, ?w1)"
      using True by (simp add: intervalCallback_def checkForNewRooms_eq [OF Cons.prems(1,2) f])
    have c1: "configured ?m1" using Cons.prems(1) by (simp add: configured_def)
    have o1: "observedSpace ?m1 = Some space" using Cons.prems(2) by simp
    have k1: "x \<in> set (lastCheckedRooms ?m1)" using x by (simp add: set_newSet)
    from Cons.IH [OF c1 o1 k1 rest, of ?w1]
    obtain m' w' sent where r: "runCallbacks n srvs (?m1, ?w1) = Some (m', w')"
      and ob: "outbox w' = outbox ?w1 @ sent" and nx: "x \<notin> room_id ` snd ` set sent"
      by blast
    have "x \<notin> room_id ` snd ` set (map (\<lambda>r. (notificationRoom m, r)) ?new @ sent)"
      using nx Cons.prems(3) by auto
    moreover have "outbox w' = outbox w @ (map (\<lambda>r. (notificationRoom m, r)) ?new @ sent)"
      using ob by (simp add: outbox_saveState)
    moreover have "runCallbacks n (srv # srvs) (m, w) = Some (m', w')"
      using cb r by simp
    ultimately show ?thesis by blast
  qed
qed

text \<open>Every room announced by a cycle is known when the cycle ends.\<close>

lemma announced_then_known:
  assumes "configured m0" and "observedSpace m0 = Some space"
    and "checkForNewRooms n srv0 a0 (m0, w0) = Some (res0, m, w)"
    and "x \<in> room_id ` snd ` set (drop (length (outbox w0)) (outbox w))"
  shows "configured m \<and> observedSpace m = Some space \<and> x \<in> set (lastCheckedRooms m)"
proof -
  from assms(1-3) obtain logged st where f: "fetchRoomsInSpace n srv0 space [] = Some (logged, st)"
    by (rule checkForNewRooms_cases)
  let ?new = "filter (\<lambda>room. room_id room \<notin> set (lastCheckedRooms m0)) (allRooms st)"
  have m: "m = m0\<lparr>roomNames := foldl rememberName (roomNames m0) ?new,
               lastCheckedRooms := newSet (map room_id (allRooms st))\<rparr>"
    and w: "outbox w = outbox w0 @ (if a0 then map (\<lambda>r. (notificationRoom m0, r)) ?new else [])"
    using assms(3) unfolding checkForNewRooms_eq [OF assms(1,2) f]
    by (auto simp: outbox_saveState)
  have "x \<in> room_id ` set (allRooms st)"
    using assms(4) w by (auto split: if_splits)
  then show ?thesis
    using m assms(1,2) by (simp add: set_newSet configured_def)
qed

text \<open>
  C2, as the code has it. The known set is replaced by the fetched id set in every cycle.
  So a room announced by a completed cycle is not announced again by the later callbacks
  (each run to its end before the next) as long as every one of them still fetches it. A
  room that is missing from one fetched list is new again when it comes back.
\<close>

theorem no_renotification_while_listed:
  assumes "configured m0" and "observedSpace m0 = Some space"
    and "checkForNewRooms n srv0 a0 (m0, w0) = Some (res0, m, w)"
    and "x \<in> room_id ` snd ` set (drop (length (outbox w0)) (outbox w))"
    and "\<forall>srv\<in>set srvs. \<exists>logged st.
           fetchRoomsInSpace n srv space [] = Some (logged, st) \<and> x \<in> room_id ` set (allRooms st)"
  shows "\<exists>m' w' sent. runCallbacks n srvs (m, w) = Some (m', w') \<and>
           outbox w' = outbox w @ sent \<and> x \<notin> room_id ` snd ` set sent"
proof -
  from announced_then_known [OF assms(1-4)]
  have "configured m" and "observedSpace m = Some space" and "x \<in> set (lastCheckedRooms m)"
    by simp_all
  then show ?thesis
    using assms(5) by (rule known_room_not_announced)
qed

lemma configured_running: "configured running_monitor"
  using configured_fresh by (simp add: running_monitor_def configured_def)

lemma configured_update:
  "configured (m\<lparr>lastCheckedRooms := k\<rparr>) = configured m"
  "configured (m\<lparr>roomNames := ns\<rparr>) = configured m"
  "configured (m\<lparr>isRunning := b\<rparr>) = configured m"
  by (simp_all add: configured_def)

theorem no_renotification_while_listed_witness:
  "\<exists>res0 m w m' w' sent.
     checkForNewRooms 5 (server_of one_room) True (running_monitor, empty_world) = Some (res0, m, w) \<and>
     ''r1'' \<in> room_id ` snd ` set (drop (length (outbox empty_world)) (outbox w)) \<and>
     runCallbacks 5 [server_of one_room, server_of three_rooms] (m, w) = Some (m', w') \<and>
     outbox w' = outbox w @ sent \<and> ''r1'' \<notin> room_id ` snd ` set sent"
proof -
  have o: "observedSpace running_monitor = Some ''S''"
    by (simp add: running_monitor_def fresh_monitor_def new_RoomMonitor_def)
  have k: "lastCheckedRooms running_monitor = []" and nr: "notificationRoom running_monitor = Some ''N''"
    by (simp_all add: running_monitor_def fresh_monitor_def new_RoomMonitor_def)
  have "\<exists>res0 m w.
      checkForNewRooms 5 (server_of one_room) True (running_monitor, empty_world) = Some (res0, m, w) \<and>
      outbox w = [(Some ''N'', plain ''r1'')]"
    unfolding checkForNewRooms_eq [OF configured_running o fetch_one_room, of True empty_world]
    by (simp add: outbox_saveState k nr empty_world_def)
  then obtain res0 m w where
    cyc: "checkForNewRooms 5 (server_of one_room) True (running_monitor, empty_world) = Some (res0, m, w)"
    and ob: "outbox w = [(Some ''N'', plain ''r1'')]"
    by (elim exE conjE)
  have sent: "''r1'' \<in> room_id ` snd ` set (drop (length (outbox empty_world)) (outbox w))"
    unfolding ob by (simp add: empty_world_def plain_def)
  have later: "\<forall>srv\<in>set [server_of one_room, server_of three_rooms]. \<exists>logged st.
           fetchRoomsInSpace 5 srv ''S'' [] = Some (logged, st) \<and> ''r1'' \<in> room_id ` set (allRooms st)"
    by (simp add: fetch_one_room fetch_three_rooms plain_def)
  from no_renotification_while_listed [OF configured_running o cyc sent later]
  obtain m' w' sent' where
    run: "runCallbacks 5 [server_of one_room, server_of three_rooms] (m, w) = Some (m', w')"
    and ob': "outbox w' = outbox w @ sent'" and nx: "''r1'' \<notin> room_id ` snd ` set sent'"
    by (elim exE conjE)
  show ?thesis
    by (intro exI conjI) (rule cyc sent run ob' nx)+
qed

text \<open>A callback of a running, configured monitor, once the traversal has returned.\<close>

lemma intervalCallback_eq:
  assumes "isRunning m" and "configured m" and "observedSpace m = Some space"
    and "fetchRoomsInSpace n srv space [] = Some (logged, st)"
  shows "intervalCallback n srv (m, w) =
     Some (m\<lparr>roomNames := foldl rememberName (roomNames m)
                             (filter (\<lambda>room. room_id room \<notin> set (lastCheckedRooms m)) (allRooms st)),
              lastCheckedRooms := newSet (map room_id (allRooms st))\<rparr>,
           saveState
             (m\<lparr>roomNames := foldl rememberName (roomNames m)
                             (filter (\<lambda>room. room_id room \<notin> set (lastCheckedRooms m)) (allRooms st)),
              lastCheckedRooms := newSet (map room_id (allRooms st))\<rparr>)
             (w\<lparr>outbox := outbox w @ map (\<lambda>r. (notificationRoom m, r))
                       (filter (\<lambda>room. room_id room \<notin> set (lastCheckedRooms m)) (allRooms st))\<rparr>))"
  using assms(1) by (simp add: intervalCallback_def checkForNewRooms_eq [OF assms(2-4)])

lemma start_no_room:
  "startMonitoring 5 (server_of no_room) (fresh_monitor, empty_world) =
      Some (running_monitor,
            empty_world\<lparr>stateFile := Snapshot \<lparr> st_rooms = Some [], st_roomNames = Some [],
                                                st_observedSpace = Some ''S'' \<rparr>\<rparr>)"
proof -
  have o: "observedSpace (fresh_monitor\<lparr>isRunning := True\<rparr>) = Some ''S''"
    by (simp add: example_defs)
  have c: "configured (fresh_monitor\<lparr>isRunning := True\<rparr>)"
    using configured_fresh by (simp add: configured_def)
  have l: "loadState (fresh_monitor\<lparr>isRunning := True\<rparr>) empty_world = (False, fresh_monitor\<lparr>isRunning := True\<rparr>)"
    by (simp add: loadState_def empty_world_def)
  have r: "\<not> isRunning fresh_monitor" by (simp add: example_defs)
  show ?thesis
    using configured_fresh r
    by (simp add: startMonitoring_def l checkForNewRooms_eq [OF c o fetch_no_room] newSet_def
          saveState_def)
       (simp add: fresh_monitor_def new_RoomMonitor_def running_monitor_def empty_world_def)
qed

text \<open>
  C2, as stated, fails. The monitor starts on a space without rooms; the first callback
  finds \<open>r1\<close> and announces it, the second gets no answer for the root space, the third
  finds \<open>r1\<close> again and announces it a second time.
\<close>

theorem renotified_after_gap:
  "\<exists>m w m' w'.
     startMonitoring 5 (server_of no_room) (fresh_monitor, empty_world) = Some (m, w) \<and>
     runCallbacks 5 [server_of one_room, server_of unreachable_root, server_of one_room] (m, w)
       = Some (m', w') \<and>
     map (\<lambda>p. room_id (snd p)) (outbox w') = [''r1'', ''r1'']"
proof -
  let ?snap = "\<lambda>ids. Snapshot \<lparr> st_rooms = Some ids, st_roomNames = Some [],
                                  st_observedSpace = Some ''S'' \<rparr>"
  let ?w0 = "\<lparr> stateFile = ?snap [], writable = True, outbox = [] \<rparr>"
  let ?m1 = "running_monitor\<lparr>roomNames := [], lastCheckedRooms := [''r1'']\<rparr>"
  let ?w1 = "\<lparr> stateFile = ?snap [''r1''], writable = True, outbox = [(Some ''N'', plain ''r1'')] \<rparr>"
  let ?m2 = "running_monitor\<lparr>roomNames := [], lastCheckedRooms := []\<rparr>"
  let ?w2 = "\<lparr> stateFile = ?snap [], writable = True, outbox = [(Some ''N'', plain ''r1'')] \<rparr>"
  let ?w3 = "\<lparr> stateFile = ?snap [''r1''], writable = True,
               outbox = [(Some ''N'', plain ''r1''), (Some ''N'', plain ''r1'')] \<rparr>"
  have f: "isRunning running_monitor" "observedSpace running_monitor = Some ''S''"
    "lastCheckedRooms running_monitor = []" "notificationRoom running_monitor = Some ''N''"
    "roomNames running_monitor = []"
    by (simp_all add: running_monitor_def fresh_monitor_def new_RoomMonitor_def)
  have c: "configured ?m1" "configured ?m2"
    using configured_running by (simp_all add: configured_update)
  have r: "isRunning ?m1" "isRunning ?m2" and o: "observedSpace ?m1 = Some ''S''"
    "observedSpace ?m2 = Some ''S''"
    using f by simp_all
  have s0: "startMonitoring 5 (server_of no_room) (fresh_monitor, empty_world) = Some (running_monitor, ?w0)"
    using start_no_room by (simp add: empty_world_def)
  have s1: "intervalCallback 5 (server_of one_room) (running_monitor, ?w0) = Some (?m1, ?w1)"
    unfolding intervalCallback_eq [OF f(1) configured_running f(2) fetch_one_room]
    by (simp add: f newSet_def set_add_def rememberName_def plain_def saveState_def)
  have s2: "intervalCallback 5 (server_of unreachable_root) (?m1, ?w1) = Some (?m2, ?w2)"
    unfolding intervalCallback_eq [OF r(1) c(1) o(1) fetch_unreachable_root]
    by (simp add: f newSet_def set_add_def rememberName_def plain_def saveState_def)
  have s3: "intervalCallback 5 (server_of one_room) (?m2, ?w2) = Some (?m1, ?w3)"
    unfolding intervalCallback_eq [OF r(2) c(2) o(2) fetch_one_room]
    by (simp add: f newSet_def set_add_def rememberName_def plain_def saveState_def)
  have "runCallbacks 5 [server_of one_room, server_of unreachable_root, server_of one_room]
          (running_monitor, ?w0) = Some (?m1, ?w3)"
    by (simp add: s1 s2 s3)
  with s0 show ?thesis
    by (simp add: plain_def)
qed

text \<open>
  Within one cycle the new rooms are filtered from the fetched list, not from the set of
  its ids: a room that the traversal meets under two sub-spaces is announced twice. (The
  cycle of \<open>room-monitor.js\<close> iterates over the id set instead.)
\<close>

lemma fetch_shared_room:
  "fetchRoomsInSpace 10 (server_of shared_room) ''S'' [] =
     Some (None, \<lparr> visitedSpaces = [''S'', ''A'', ''B''],
                   allRooms = [plain ''r1'', plain ''r1''],
                   requested = [(''S'', None), (''A'', None), (''B'', None)] \<rparr>)"
  by (simp add: shared_room_def example_defs eval_defs)

lemma listed_twice_announced_twice:
  "\<exists>m w. intervalCallback 10 (server_of shared_room) (running_monitor, empty_world) = Some (m, w) \<and>
         map (\<lambda>p. room_id (snd p)) (outbox w) = [''r1'', ''r1'']"
proof -
  have f: "isRunning running_monitor" "observedSpace running_monitor = Some ''S''"
    "lastCheckedRooms running_monitor = []"
    by (simp_all add: running_monitor_def fresh_monitor_def new_RoomMonitor_def)
  show ?thesis
    unfolding intervalCallback_eq [OF f(1) configured_running f(2) fetch_shared_room]
    by (simp add: f outbox_saveState empty_world_def plain_def comp_def)
qed

subsection \<open>The timer\<close>

lemma run_timer_fires:
  assumes "isRunning (mon s)" and "monitoringInterval (mon s) \<noteq> None" and "configured (mon s)"
  shows "run s (replicate k TimerFires) = s\<lparr>inFlight := inFlight s + k\<rparr>"
  using assms unfolding run_def
proof (induction k arbitrary: s)
  case 0
  then show ?case by simp
next
  case (Suc k)
  have "foldl step (step s TimerFires) (replicate k TimerFires) =
          (step s TimerFires)\<lparr>inFlight := inFlight (step s TimerFires) + k\<rparr>"
    using Suc.prems by (intro Suc.IH) simp_all
  then show ?case
    using Suc.prems by simp
qed

lemma run_timer_stopped:
  "\<not> isRunning (mon s) \<Longrightarrow> run s (replicate k TimerFires) = s"
  unfolding run_def by (induction k) simp_all

text \<open>
  C1, as the code has it. The callback tests \<open>isRunning\<close>, which is set from
  \<open>startMonitoring\<close> to \<open>stopMonitoring\<close>, and nothing records that a cycle is under way.
  So while the monitor runs, every firing of the timer enters a new cycle: \<open>k\<close> firings
  with no return in between leave \<open>k\<close> more cycles in flight. Only after
  \<open>stopMonitoring\<close> do firings start nothing.
\<close>

theorem every_firing_starts_a_cycle:
  assumes "isRunning (mon s)" and "monitoringInterval (mon s) \<noteq> None" and "configured (mon s)"
  shows "inFlight (run s (replicate k TimerFires)) = inFlight s + k \<and>
         inFlight (run s (StopMonitoring # replicate k TimerFires)) = inFlight s"
proof
  show "inFlight (run s (replicate k TimerFires)) = inFlight s + k"
    by (simp add: run_timer_fires [OF assms])
  have "run s (StopMonitoring # replicate k TimerFires) =
          run (step s StopMonitoring) (replicate k TimerFires)"
    by (simp add: run_def)
  also have "\<dots> = step s StopMonitoring"
    by (rule run_timer_stopped) (simp add: stopMonitoring_def)
  finally show "inFlight (run s (StopMonitoring # replicate k TimerFires)) = inFlight s"
    by simp
qed

theorem every_firing_starts_a_cycle_witness:
  "inFlight (run \<lparr>mon = running_monitor, inFlight = 0\<rparr> (replicate 3 TimerFires)) = 0 + 3 \<and>
   inFlight (run \<lparr>mon = running_monitor, inFlight = 0\<rparr> (StopMonitoring # replicate 3 TimerFires)) = 0"
proof -
  have "isRunning (mon \<lparr>mon = running_monitor, inFlight = 0\<rparr>)"
    and "monitoringInterval (mon \<lparr>mon = running_monitor, inFlight = 0\<rparr>) \<noteq> None"
    and "configured (mon \<lparr>mon = running_monitor, inFlight = 0\<rparr>)"
    using configured_running by (simp_all add: running_monitor_def)
  from every_firing_starts_a_cycle [OF this, of 3] show ?thesis
    by simp
qed

text \<open>
  C1, as stated, fails: after a start, two firings of the timer with no return in between
  leave two cycles in flight.
\<close>

theorem two_cycles_in_flight:
  "\<exists>m w. startMonitoring 5 (server_of no_room) (fresh_monitor, empty_world) = Some (m, w) \<and>
         inFlight (run \<lparr>mon = m, inFlight = 0\<rparr> [TimerFires, TimerFires]) = 2"
proof -
  have "inFlight (run \<lparr>mon = running_monitor, inFlight = 0\<rparr> [TimerFires, TimerFires]) = 2"
    using configured_running by (simp add: run_def running_monitor_def)
  then show ?thesis
    using start_no_room by simp
qed

subsection \<open>A failing branch\<close>

text \<open>
  C3 on the traversal of \<open>index.js\<close>: the exception of the request for \<open>X\<close> leaves the
  loop over the children of the root, so \<open>Y\<close> is never requested and no room is returned.
\<close>

theorem broken_branch_aborts:
  "fetchRoomsInSpace 10 (server_of broken_branch) ''root'' [] =
     Some (Some (RequestFailed ''forbidden''),
           \<lparr> visitedSpaces = [''root'', ''X''], allRooms = [],
             requested = [(''root'', None), (''X'', None)] \<rparr>)"
  by (simp add: example_defs eval_defs)

text \<open>The traversal of \<open>room-monitor.js\<close> on the same hierarchy goes on to \<open>Y\<close>.\<close>

lemma broken_branch_state_continues:
  "fetchRoomsInSpace_state 10 broken_branch_state ''root'' [] =
     Some ([\<lparr>cr_room_id = ''r5'', cr_name = ''r5''\<rparr>, \<lparr>cr_room_id = ''r6'', cr_name = ''r6''\<rparr>],
           [''root'', ''X'', ''Y''])"
  by (simp add: broken_branch_state_def child_event_def child_events_def child_of_event_def
      set_add_def truthy_def numeral_nat)

subsection \<open>Traversal: induction, fuel and growth\<close>

text \<open>
  The induction that follows the calls of the traversal: a property of \<open>recurseHierarchy\<close>,
  one of \<open>doWhile\<close> and one of \<open>forRooms\<close>, each proved from the properties of the calls
  it makes.
\<close>

lemma traversal_induct:
  fixes R :: "nat \<Rightarrow> server \<Rightarrow> string \<Rightarrow> tstate \<Rightarrow> bool"
    and D :: "nat \<Rightarrow> server \<Rightarrow> string \<Rightarrow> string option \<Rightarrow> tstate \<Rightarrow> bool"
    and F :: "nat \<Rightarrow> server \<Rightarrow> hierarchy_room list \<Rightarrow> tstate \<Rightarrow> bool"
  assumes "\<And>srv s st. R 0 srv s st"
    and "\<And>n srv s st.
          (s \<notin> set (visitedSpaces st) \<Longrightarrow>
             D n srv s None (st\<lparr>visitedSpaces := set_add s (visitedSpaces st)\<rparr>)) \<Longrightarrow>
          R (Suc n) srv s st"
    and "\<And>srv s nb st. D 0 srv s nb st"
    and "\<And>n srv s nb st.
          (\<And>resp. srv s (if truthy nb then nb else None) = Inr resp \<Longrightarrow>
             F n srv (rooms_or_empty resp)
               (st\<lparr>requested := requested st @ [(s, if truthy nb then nb else None)]\<rparr>)) \<Longrightarrow>
          (\<And>resp st2. srv s (if truthy nb then nb else None) = Inr resp \<Longrightarrow>
             forRooms n srv (rooms_or_empty resp)
               (st\<lparr>requested := requested st @ [(s, if truthy nb then nb else None)]\<rparr>)
               = Some (None, st2) \<Longrightarrow>
             truthy (next_batch resp) \<Longrightarrow> D n srv s (next_batch resp) st2) \<Longrightarrow>
          D (Suc n) srv s nb st"
    and "\<And>n srv st. F n srv [] st"
    and "\<And>n srv room rest st.
          (isSpace room \<Longrightarrow> R n srv (hr_room_id room) st) \<Longrightarrow>
          (\<And>st1. isSpace room \<Longrightarrow>
             recurseHierarchy n srv (hr_room_id room) st = Some (None, st1) \<Longrightarrow> F n srv rest st1) \<Longrightarrow>
          (\<not> isSpace room \<Longrightarrow> F n srv rest (st\<lparr>allRooms := allRooms st @ [mk_metadata room]\<rparr>)) \<Longrightarrow>
          F n srv (room # rest) st"
  shows "R n srv s st" and "D n srv s nb st" and "F n srv rs st"
proof (induction n srv s st and n srv s nb st and n srv rs st
    rule: recurseHierarchy_doWhile_forRooms.induct)
  case (1 srv spaceId st)
  show ?case by (rule assms(1))
next
  case (2 n srv spaceId st)
  show ?case by (rule assms(2)) (rule 2)
next
  case (3 srv spaceId nextBatch st)
  show ?case by (rule assms(3))
next
  case (4 n srv spaceId nextBatch st)
  show ?case
  proof (rule assms(4))
    fix resp
    assume "srv spaceId (if truthy nextBatch then nextBatch else None) = Inr resp"
    then show "F n srv (rooms_or_empty resp)
       (st\<lparr>requested := requested st @ [(spaceId, if truthy nextBatch then nextBatch else None)]\<rparr>)"
      by (intro "4.IH"(1)) simp_all
  next
    fix resp st2
    assume "srv spaceId (if truthy nextBatch then nextBatch else None) = Inr resp"
      and "forRooms n srv (rooms_or_empty resp)
        (st\<lparr>requested := requested st @ [(spaceId, if truthy nextBatch then nextBatch else None)]\<rparr>)
          = Some (None, st2)"
      and "truthy (next_batch resp)"
    then show "D n srv spaceId (next_batch resp) st2"
      by (intro "4.IH"(2)) simp_all
  qed
next
  case (5 n srv st)
  show ?case by (rule assms(5))
next
  case (6 n srv room rest st)
  show ?case
  proof (rule assms(6))
    assume "isSpace room"
    then show "R n srv (hr_room_id room) st" by (rule "6.IH"(1))
  next
    fix st1
    assume "isSpace room" and "recurseHierarchy n srv (hr_room_id room) st = Some (None, st1)"
    then show "F n srv rest st1" by (intro "6.IH"(2)) simp_all
  next
    assume "\<not> isSpace room"
    then show "F n srv rest (st\<lparr>allRooms := allRooms st @ [mk_metadata room]\<rparr>)"
      by (rule "6.IH"(3))
  qed
qed

lemma doWhile_Suc:
  "doWhile (Suc n) srv s nb st =
     (case srv s (if truthy nb then nb else None) of
        Inl e \<Rightarrow> Some (Some e, st\<lparr>requested := requested st @ [(s, if truthy nb then nb else None)]\<rparr>)
      | Inr resp \<Rightarrow>
          (case forRooms n srv (rooms_or_empty resp)
                  (st\<lparr>requested := requested st @ [(s, if truthy nb then nb else None)]\<rparr>) of
             None \<Rightarrow> None
           | Some (Some e, st2) \<Rightarrow> Some (Some e, st2)
           | Some (None, st2) \<Rightarrow>
               if truthy (next_batch resp) then doWhile n srv s (next_batch resp) st2
               else Some (None, st2)))"
  by (simp add: Let_def)

lemma fuel_mono:
  "\<forall>r. recurseHierarchy n srv s st = Some r \<longrightarrow> recurseHierarchy (n + k) srv s st = Some r"
  "\<forall>r. doWhile n srv s nb st = Some r \<longrightarrow> doWhile (n + k) srv s nb st = Some r"
  "\<forall>r. forRooms n srv rs st = Some r \<longrightarrow> forRooms (n + k) srv rs st = Some r"
proof (induction n srv s st and n srv s nb st and n srv rs st rule: traversal_induct)
  case (1 srv s st)
  show ?case by simp
next
  case (2 n srv s st)
  then show ?case by simp
next
  case (3 srv s nb st)
  show ?case by simp
next
  case (4 n srv s nb st)
  show ?case
  proof (intro allI impI)
    fix r
    assume a: "doWhile (Suc n) srv s nb st = Some r"
    let ?from = "if truthy nb then nb else None"
    let ?st1 = "st\<lparr>requested := requested st @ [(s, ?from)]\<rparr>"
    show "doWhile (Suc n + k) srv s nb st = Some r"
    proof (cases "srv s ?from")
      case (Inl e)
      with a show ?thesis by (simp add: doWhile_Suc del: doWhile.simps)
    next
      case (Inr resp)
      show ?thesis
      proof (cases "forRooms n srv (rooms_or_empty resp) ?st1")
        case None
        with a Inr show ?thesis by (simp add: doWhile_Suc del: doWhile.simps)
      next
        case (Some p)
        then have F: "forRooms (n + k) srv (rooms_or_empty resp) ?st1 = Some p"
          using "4"(1) [OF Inr] by simp
        show ?thesis
        proof (cases "\<exists>st2. p = (None, st2) \<and> truthy (next_batch resp)")
          case True
          then obtain st2 where p: "p = (None, st2)" and t: "truthy (next_batch resp)" by blast
          have "doWhile n srv s (next_batch resp) st2 = Some r"
            using a Inr Some p t by (simp add: doWhile_Suc del: doWhile.simps)
          then have "doWhile (n + k) srv s (next_batch resp) st2 = Some r"
            using "4"(2) [OF Inr _ t, of st2] Some p by simp
          then show ?thesis
            using Inr F p t by (simp add: doWhile_Suc del: doWhile.simps)
        next
          case False
          then show ?thesis
            using a Inr Some F
            by (cases p) (auto simp add: doWhile_Suc simp del: doWhile.simps split: option.splits)
        qed
      qed
    qed
  qed
next
  case (5 n srv st)
  show ?case by simp
next
  case (6 n srv room rest st)
  show ?case
  proof (cases "isSpace room")
    case False
    with 6(3) show ?thesis by simp
  next
    case True
    show ?thesis
    proof (intro allI impI)
      fix r
      assume a: "forRooms n srv (room # rest) st = Some r"
      show "forRooms (n + k) srv (room # rest) st = Some r"
      proof (cases "recurseHierarchy n srv (hr_room_id room) st")
        case None
        with a True show ?thesis by simp
      next
        case (Some p)
        note rp = this
        then have R: "recurseHierarchy (n + k) srv (hr_room_id room) st = Some p"
          using 6(1) [OF True] by simp
        show ?thesis
        proof (cases p)
          case (Pair e st1)
          show ?thesis
          proof (cases e)
            case None
            have "forRooms n srv rest st1 = Some r"
              using a True rp Pair None by simp
            then have "forRooms (n + k) srv rest st1 = Some r"
              using 6(2) [OF True, of st1] rp Pair None by simp
            then show ?thesis
              using True R Pair None by simp
          next
            case (Some err)
            have "r = (Some err, st1)"
              using a True rp Pair Some by simp
            then show ?thesis
              using True R Pair Some by simp
          qed
        qed
      qed
    qed
  qed
qed
text \<open>Every result of the functions is a run of the relation.\<close>

lemma fuel_run:
  "\<forall>e st'. recurseHierarchy n srv s st = Some (e, st') \<longrightarrow> recursed srv s st e st'"
  "\<forall>e st'. doWhile n srv s nb st = Some (e, st') \<longrightarrow> looped srv s nb st e st'"
  "\<forall>e st'. forRooms n srv rs st = Some (e, st') \<longrightarrow> iterated srv rs st e st'"
proof (induction n srv s st and n srv s nb st and n srv rs st rule: traversal_induct)
  case (1 srv s st)
  show ?case by simp
next
  case (2 n srv s st)
  show ?case
  proof (cases "s \<in> set (visitedSpaces st)")
    case True
    then show ?thesis by (auto intro: seen)
  next
    case False
    with 2 show ?thesis by (auto simp: set_add_def intro: expand)
  qed
next
  case (3 srv s nb st)
  show ?case by simp
next
  case (4 n srv s nb st)
  show ?case
  proof (intro allI impI)
    fix e st'
    assume a: "doWhile (Suc n) srv s nb st = Some (e, st')"
    let ?from = "if truthy nb then nb else None"
    let ?st1 = "st\<lparr>requested := requested st @ [(s, ?from)]\<rparr>"
    show "looped srv s nb st e st'"
    proof (cases "srv s ?from")
      case (Inl err)
      with a have "e = Some err" and "st' = ?st1"
        by (simp_all add: doWhile_Suc del: doWhile.simps)
      then show ?thesis
        using request_fails [where srv = srv and s = s and nb = nb, OF Inl] by simp
    next
      case (Inr resp)
      show ?thesis
      proof (cases "forRooms n srv (rooms_or_empty resp) ?st1")
        case None
        with a Inr show ?thesis by (simp add: doWhile_Suc del: doWhile.simps)
      next
        case (Some p)
        obtain e1 st2 where p: "p = (e1, st2)" by (cases p)
        have it: "iterated srv (rooms_or_empty resp) ?st1 e1 st2"
          using "4"(1) [OF Inr] Some p by simp
        show ?thesis
        proof (cases e1)
          case (Some err)
          with a Inr \<open>forRooms n srv (rooms_or_empty resp) ?st1 = Some p\<close> p
          have "e = Some err" and "st' = st2"
            by (simp_all add: doWhile_Suc del: doWhile.simps)
          then show ?thesis
            using page_fails [where srv = srv and s = s and nb = nb, OF Inr] it Some by simp
        next
          case None
          note e1 = this
          show ?thesis
          proof (cases "truthy (next_batch resp)")
            case True
            have "doWhile n srv s (next_batch resp) st2 = Some (e, st')"
              using a Inr Some p e1 True by (simp add: doWhile_Suc del: doWhile.simps)
            then have "looped srv s (next_batch resp) st2 e st'"
              using "4"(2) [OF Inr _ True, of st2] Some p e1 by simp
            then show ?thesis
              using more_pages [where srv = srv and s = s and nb = nb, OF Inr _ True] it e1 by simp
          next
            case False
            have "e = None" and "st' = st2"
              using a Inr Some p e1 False by (simp_all add: doWhile_Suc del: doWhile.simps)
            then show ?thesis
              using last_page [where srv = srv and s = s and nb = nb, OF Inr _ False] it e1 by simp
          qed
        qed
      qed
    qed
  qed
next
  case (5 n srv st)
  show ?case by (auto intro: no_rooms)
next
  case (6 n srv room rest st)
  show ?case
  proof (cases "isSpace room")
    case False
    with 6(3) show ?thesis by (auto intro: leaf_room)
  next
    case True
    show ?thesis
    proof (intro allI impI)
      fix e st'
      assume a: "forRooms n srv (room # rest) st = Some (e, st')"
      show "iterated srv (room # rest) st e st'"
      proof (cases "recurseHierarchy n srv (hr_room_id room) st")
        case None
        with a True show ?thesis by simp
      next
        case (Some p)
        note rp = this
        obtain e1 st1 where p: "p = (e1, st1)" by (cases p)
        have rc: "recursed srv (hr_room_id room) st e1 st1"
          using 6(1) [OF True] rp p by simp
        show ?thesis
        proof (cases e1)
          case None
          have "forRooms n srv rest st1 = Some (e, st')"
            using a True rp p None by simp
          then have "iterated srv rest st1 e st'"
            using 6(2) [OF True, of st1] rp p None by simp
          then show ?thesis
            using space_done [OF True] rc None by simp
        next
          case (Some err)
          have "e = Some err" and "st' = st1"
            using a True rp p Some by simp_all
          then show ?thesis
            using space_fails [OF True] rc Some by simp
        qed
      qed
    qed
  qed
qed
text \<open>A run only adds: visited spaces, rooms and requests.\<close>

lemma run_grows:
  "recursed srv s st e st' \<Longrightarrow>
     set (visitedSpaces st) \<subseteq> set (visitedSpaces st') \<and>
     prefix (allRooms st) (allRooms st') \<and> prefix (requested st) (requested st')"
  "looped srv s nb st e st' \<Longrightarrow>
     set (visitedSpaces st) \<subseteq> set (visitedSpaces st') \<and>
     prefix (allRooms st) (allRooms st') \<and> prefix (requested st) (requested st')"
  "iterated srv rs st e st' \<Longrightarrow>
     set (visitedSpaces st) \<subseteq> set (visitedSpaces st') \<and>
     prefix (allRooms st) (allRooms st') \<and> prefix (requested st) (requested st')"
proof (induction rule: recursed_looped_iterated.inducts)
  case (more_pages s nb resp st st2 e st')
  then show ?case by (auto dest: prefix_order.trans append_prefixD)
next
  case (space_done room st st1 rest e st')
  then show ?case by (auto dest: prefix_order.trans)
qed (auto dest: append_prefixD)

text \<open>
  The requests a run adds are for spaces that were not visited when it began; the loop
  of a space \<open>s\<close> also adds requests for \<open>s\<close> itself.
\<close>

lemma run_requests:
  "recursed srv s st e st' \<Longrightarrow>
     \<exists>new. requested st' = requested st @ new \<and> (\<forall>q\<in>set new. fst q \<notin> set (visitedSpaces st))"
  "looped srv s nb st e st' \<Longrightarrow>
     \<exists>new. requested st' = requested st @ new \<and>
       (\<forall>q\<in>set new. fst q = s \<or> fst q \<notin> set (visitedSpaces st))"
  "iterated srv rs st e st' \<Longrightarrow>
     \<exists>new. requested st' = requested st @ new \<and> (\<forall>q\<in>set new. fst q \<notin> set (visitedSpaces st))"
proof (induction rule: recursed_looped_iterated.inducts)
  case (seen s st)
  show ?case by simp
next
  case (expand s st e st')
  then show ?case by auto
next
  case (request_fails s nb err st)
  show ?case by simp
next
  case (page_fails s nb resp st err st2)
  then show ?case by auto
next
  case (last_page s nb resp st st2)
  then show ?case by auto
next
  case (more_pages s nb resp st st2 e st')
  from more_pages obtain new1 where
    n1: "requested st2 = requested st @ (s, if truthy nb then nb else None) # new1"
    and s1: "\<forall>q\<in>set new1. fst q \<notin> set (visitedSpaces st)"
    by auto
  from more_pages obtain new2 where
    n2: "requested st' = requested st2 @ new2"
    and s2: "\<forall>q\<in>set new2. fst q = s \<or> fst q \<notin> set (visitedSpaces st2)"
    by auto
  have "set (visitedSpaces st) \<subseteq> set (visitedSpaces st2)"
    using more_pages run_grows(3) [of srv "rooms_or_empty resp"
        "st\<lparr>requested := requested st @ [(s, if truthy nb then nb else None)]\<rparr>" None st2]
    by simp
  with s1 s2 have "\<forall>q\<in>set ((s, if truthy nb then nb else None) # new1 @ new2).
      fst q = s \<or> fst q \<notin> set (visitedSpaces st)"
    by auto
  moreover have "requested st' = requested st @ ((s, if truthy nb then nb else None) # new1 @ new2)"
    using n1 n2 by simp
  ultimately show ?case by blast
next
  case (no_rooms st)
  show ?case by simp
next
  case (leaf_room room rest st e st')
  then show ?case by auto
next
  case (space_fails room st err st1 rest)
  then show ?case by auto
next
  case (space_done room st st1 rest e st')
  from space_done obtain new1 where
    n1: "requested st1 = requested st @ new1"
    and s1: "\<forall>q\<in>set new1. fst q \<notin> set (visitedSpaces st)"
    by auto
  from space_done obtain new2 where
    n2: "requested st' = requested st1 @ new2"
    and s2: "\<forall>q\<in>set new2. fst q \<notin> set (visitedSpaces st1)"
    by auto
  have "set (visitedSpaces st) \<subseteq> set (visitedSpaces st1)"
    using space_done run_grows(1) [of srv "hr_room_id room" st None st1] by simp
  with s1 s2 have "\<forall>q\<in>set (new1 @ new2). fst q \<notin> set (visitedSpaces st)"
    by auto
  moreover have "requested st' = requested st @ (new1 @ new2)"
    using n1 n2 by simp
  ultimately show ?case by blast
qed
subsection \<open>Traversal: every space is expanded at most once\<close>

lemma expansions_request:
  "expansions (st\<lparr>requested := requested st @ [(s, if truthy nb then nb else None)]\<rparr>) =
     (if truthy nb then expansions st else expansions st @ [s])"
  by (auto simp: expansions_def truthy_def split: option.splits)

lemma expansions_update:
  "expansions (st\<lparr>visitedSpaces := v\<rparr>) = expansions st"
  "expansions (st\<lparr>allRooms := a\<rparr>) = expansions st"
  by (simp_all add: expansions_def)

text \<open>
  The expanded spaces are the visited ones, each expanded once. Inside the loop of a space
  \<open>s\<close> that has not sent its first request yet, \<open>s\<close> is visited but not expanded.
\<close>

lemma run_expansions:
  "recursed srv s st e st' \<Longrightarrow>
     distinct (expansions st) \<and> set (expansions st) = set (visitedSpaces st) \<longrightarrow>
     distinct (expansions st') \<and> set (expansions st') = set (visitedSpaces st')"
  "looped srv s nb st e st' \<Longrightarrow>
     distinct (expansions st) \<and> s \<in> set (visitedSpaces st) \<and>
     set (expansions st) = (if truthy nb then set (visitedSpaces st) else set (visitedSpaces st) - {s}) \<longrightarrow>
     distinct (expansions st') \<and> set (expansions st') = set (visitedSpaces st')"
  "iterated srv rs st e st' \<Longrightarrow>
     distinct (expansions st) \<and> set (expansions st) = set (visitedSpaces st) \<longrightarrow>
     distinct (expansions st') \<and> set (expansions st') = set (visitedSpaces st')"
proof (induction rule: recursed_looped_iterated.inducts)
  case (seen s st)
  show ?case by simp
next
  case (expand s st e st')
  then show ?case by (auto simp: expansions_update truthy_def)
next
  case (request_fails s nb err st)
  show ?case by (auto simp: expansions_request)
next
  case (page_fails s nb resp st err st2)
  then show ?case by (auto simp: expansions_request split: if_splits)
next
  case (last_page s nb resp st st2)
  then show ?case by (auto simp: expansions_request split: if_splits)
next
  case (more_pages s nb resp st st2 e st')
  have "s \<in> set (visitedSpaces st) \<Longrightarrow> s \<in> set (visitedSpaces st2)"
    using more_pages run_grows(3) [of srv "rooms_or_empty resp"
        "st\<lparr>requested := requested st @ [(s, if truthy nb then nb else None)]\<rparr>" None st2]
    by auto
  with more_pages show ?case
    by (auto simp: expansions_request split: if_splits)
next
  case (no_rooms st)
  show ?case by simp
next
  case (leaf_room room rest st e st')
  then show ?case by (simp add: expansions_update)
next
  case (space_fails room st err st1 rest)
  then show ?case by simp
next
  case (space_done room st st1 rest e st')
  then show ?case by simp
qed
subsection \<open>Traversal: every reachable space is expanded\<close>

lemma listed_from_cases:
  assumes "listed_from srv s from room" and "srv s from = Inr resp"
  shows "room \<in> set (rooms_or_empty resp) \<or>
         (truthy (next_batch resp) \<and> listed_from srv s (next_batch resp) room)"
proof -
  from assms(1) obtain from' resp' where p: "pages_from srv s from from'"
    and r: "srv s from' = Inr resp'" and m: "room \<in> set (rooms_or_empty resp')"
    unfolding listed_from_def by blast
  from p show ?thesis
  proof (cases rule: pages_from.cases)
    case first_page
    with r m assms(2) show ?thesis by simp
  next
    case (next_page resp0)
    with assms(2) have "resp0 = resp" by simp
    with next_page r m show ?thesis
      unfolding listed_from_def by blast
  qed
qed

text \<open>
  After a run that ended without an exception, the spaces it visited have all their
  sub-spaces visited.
\<close>

lemma run_closed:
  "recursed srv s st e st' \<Longrightarrow> e = None \<longrightarrow>
     s \<in> set (visitedSpaces st') \<and>
     (\<forall>u c. u \<in> set (visitedSpaces st') \<and> u \<notin> set (visitedSpaces st) \<and> child_space srv u c
            \<longrightarrow> c \<in> set (visitedSpaces st'))"
  "looped srv s nb st e st' \<Longrightarrow> e = None \<longrightarrow>
     (\<forall>room. listed_from srv s (if truthy nb then nb else None) room \<and> isSpace room
            \<longrightarrow> hr_room_id room \<in> set (visitedSpaces st')) \<and>
     (\<forall>u c. u \<in> set (visitedSpaces st') \<and> u \<notin> set (visitedSpaces st) \<and> child_space srv u c
            \<longrightarrow> c \<in> set (visitedSpaces st'))"
  "iterated srv rs st e st' \<Longrightarrow> e = None \<longrightarrow>
     (\<forall>room\<in>set rs. isSpace room \<longrightarrow> hr_room_id room \<in> set (visitedSpaces st')) \<and>
     (\<forall>u c. u \<in> set (visitedSpaces st') \<and> u \<notin> set (visitedSpaces st) \<and> child_space srv u c
            \<longrightarrow> c \<in> set (visitedSpaces st'))"
proof (induction rule: recursed_looped_iterated.inducts)
  case (seen s st)
  then show ?case by auto
next
  case (expand s st e st')
  have g: "set (visitedSpaces st) \<union> {s} \<subseteq> set (visitedSpaces st')"
    using expand run_grows(2) [of srv s None "st\<lparr>visitedSpaces := visitedSpaces st @ [s]\<rparr>" e st']
    by simp
  show ?case
  proof (intro impI)
    assume "e = None"
    with expand have
      a: "\<forall>room. listed_from srv s None room \<and> isSpace room \<longrightarrow> hr_room_id room \<in> set (visitedSpaces st')"
      and b: "\<forall>u c. u \<in> set (visitedSpaces st') \<and> u \<notin> set (visitedSpaces st) \<and> u \<noteq> s \<and> child_space srv u c
            \<longrightarrow> c \<in> set (visitedSpaces st')"
      by (auto simp: truthy_def)
    from a have "\<forall>c. child_space srv s c \<longrightarrow> c \<in> set (visitedSpaces st')"
      unfolding child_space_def by blast
    with b g show "s \<in> set (visitedSpaces st') \<and>
     (\<forall>u c. u \<in> set (visitedSpaces st') \<and> u \<notin> set (visitedSpaces st) \<and> child_space srv u c
            \<longrightarrow> c \<in> set (visitedSpaces st'))"
      by blast
  qed
next
  case (request_fails s nb err st)
  show ?case by simp
next
  case (page_fails s nb resp st err st2)
  show ?case by simp
next
  case (last_page s nb resp st st2)
  then show ?case
    using listed_from_cases [of srv s "if truthy nb then nb else None" _ resp]
    by auto
next
  case (more_pages s nb resp st st2 e st')
  have g: "set (visitedSpaces st2) \<subseteq> set (visitedSpaces st')"
    using more_pages run_grows(2) [of srv s "next_batch resp" st2 e st'] by simp
  show ?case
  proof (intro impI)
    assume "e = None"
    with more_pages have
      a1: "\<forall>room\<in>set (rooms_or_empty resp). isSpace room \<longrightarrow> hr_room_id room \<in> set (visitedSpaces st2)"
      and b1: "\<forall>u c. u \<in> set (visitedSpaces st2) \<and> u \<notin> set (visitedSpaces st) \<and> child_space srv u c
            \<longrightarrow> c \<in> set (visitedSpaces st2)"
      and a2: "\<forall>room. listed_from srv s (next_batch resp) room \<and> isSpace room
            \<longrightarrow> hr_room_id room \<in> set (visitedSpaces st')"
      and b2: "\<forall>u c. u \<in> set (visitedSpaces st') \<and> u \<notin> set (visitedSpaces st2) \<and> child_space srv u c
            \<longrightarrow> c \<in> set (visitedSpaces st')"
      by auto
    have "\<forall>room. listed_from srv s (if truthy nb then nb else None) room \<and> isSpace room
            \<longrightarrow> hr_room_id room \<in> set (visitedSpaces st')"
      using listed_from_cases [of srv s "if truthy nb then nb else None" _ resp] more_pages
        a1 a2 g by blast
    moreover have "\<forall>u c. u \<in> set (visitedSpaces st') \<and> u \<notin> set (visitedSpaces st) \<and> child_space srv u c
            \<longrightarrow> c \<in> set (visitedSpaces st')"
      using b1 b2 g by blast
    ultimately show "(\<forall>room. listed_from srv s (if truthy nb then nb else None) room \<and> isSpace room
            \<longrightarrow> hr_room_id room \<in> set (visitedSpaces st')) \<and>
     (\<forall>u c. u \<in> set (visitedSpaces st') \<and> u \<notin> set (visitedSpaces st) \<and> child_space srv u c
            \<longrightarrow> c \<in> set (visitedSpaces st'))"
      by blast
  qed
next
  case (no_rooms st)
  show ?case by auto
next
  case (leaf_room room rest st e st')
  then show ?case by simp
next
  case (space_fails room st err st1 rest)
  show ?case by simp
next
  case (space_done room st st1 rest e st')
  have g: "set (visitedSpaces st1) \<subseteq> set (visitedSpaces st')"
    using space_done run_grows(3) [of srv rest st1 e st'] by simp
  show ?case
  proof (intro impI)
    assume "e = None"
    with space_done have
      a1: "hr_room_id room \<in> set (visitedSpaces st1)"
      and b1: "\<forall>u c. u \<in> set (visitedSpaces st1) \<and> u \<notin> set (visitedSpaces st) \<and> child_space srv u c
            \<longrightarrow> c \<in> set (visitedSpaces st1)"
      and a2: "\<forall>room\<in>set rest. isSpace room \<longrightarrow> hr_room_id room \<in> set (visitedSpaces st')"
      and b2: "\<forall>u c. u \<in> set (visitedSpaces st') \<and> u \<notin> set (visitedSpaces st1) \<and> child_space srv u c
            \<longrightarrow> c \<in> set (visitedSpaces st')"
      by auto
    have "\<forall>r\<in>set (room # rest). isSpace r \<longrightarrow> hr_room_id r \<in> set (visitedSpaces st')"
      using a1 a2 g by auto
    moreover have "\<forall>u c. u \<in> set (visitedSpaces st') \<and> u \<notin> set (visitedSpaces st) \<and> child_space srv u c
            \<longrightarrow> c \<in> set (visitedSpaces st')"
      using b1 b2 g by blast
    ultimately show "(\<forall>r\<in>set (room # rest). isSpace r \<longrightarrow> hr_room_id r \<in> set (visitedSpaces st')) \<and>
     (\<forall>u c. u \<in> set (visitedSpaces st') \<and> u \<notin> set (visitedSpaces st) \<and> child_space srv u c
            \<longrightarrow> c \<in> set (visitedSpaces st'))"
      by blast
  qed
qed

lemma closed_reaches:
  assumes "(child_space srv)\<^sup>*\<^sup>* root s" and "root \<in> V"
    and "\<forall>u c. u \<in> V \<and> child_space srv u c \<longrightarrow> c \<in> V"
  shows "s \<in> V"
  using assms by (induction rule: rtranclp_induct) blast+

lemma count_list_distinct: "distinct xs \<Longrightarrow> x \<in> set xs \<Longrightarrow> count_list xs x = 1"
  by (induction xs) (auto simp: count_list_0_iff)

text \<open>What a returned traversal has done, on any homeserver.\<close>

lemma fetch_expands_once:
  assumes "fetchRoomsInSpace n srv root [] = Some (logged, st)"
  shows "distinct (expansions st)"
    and "logged = None \<Longrightarrow> (child_space srv)\<^sup>*\<^sup>* root s \<Longrightarrow> count_list (expansions st) s = 1"
proof -
  let ?st0 = "\<lparr>visitedSpaces = [], allRooms = [], requested = []\<rparr>"
  have r: "recursed srv root ?st0 logged st"
    using assms fuel_run(1) [of n srv root ?st0] by (simp add: fetchRoomsInSpace_def)
  have i: "distinct (expansions st) \<and> set (expansions st) = set (visitedSpaces st)"
    using run_expansions(1) [OF r] by (simp add: expansions_def)
  then show "distinct (expansions st)" by simp
  assume "logged = None" and reach: "(child_space srv)\<^sup>*\<^sup>* root s"
  with run_closed(1) [OF r] have "root \<in> set (visitedSpaces st)"
    and "\<forall>u c. u \<in> set (visitedSpaces st) \<and> child_space srv u c \<longrightarrow> c \<in> set (visitedSpaces st)"
    by simp_all
  with reach have "s \<in> set (visitedSpaces st)"
    by (rule closed_reaches)
  with i show "count_list (expansions st) s = 1"
    by (simp add: count_list_distinct)
qed
subsection \<open>Traversal: termination on finite space graphs\<close>

lemma visited_grows:
  "recurseHierarchy n srv s st = Some (e, st') \<Longrightarrow> set (visitedSpaces st) \<subseteq> set (visitedSpaces st')"
  "forRooms n srv rs st = Some (e, st') \<Longrightarrow> set (visitedSpaces st) \<subseteq> set (visitedSpaces st')"
  using fuel_run(1) [of n srv s st] fuel_run(3) [of n srv rs st] run_grows(1,3) by blast+

lemma unvisited_shrinks:
  assumes "finite K" and "set (visitedSpaces st) \<subseteq> set (visitedSpaces st')"
    and "card (K - set (visitedSpaces st)) \<le> b"
  shows "card (K - set (visitedSpaces st')) \<le> b"
proof -
  have "card (K - set (visitedSpaces st')) \<le> card (K - set (visitedSpaces st))"
    using assms(1,2) by (intro card_mono) auto
  with assms(3) show ?thesis by simp
qed

text \<open>
  If every call of \<open>recurseHierarchy\<close> in a state with at most \<open>b\<close> unvisited spaces of
  \<open>K\<close> returns, so does the loop over the entries of a page.
\<close>

lemma forRooms_terminates:
  assumes R: "\<And>s st. card (K - set (visitedSpaces st)) \<le> b \<Longrightarrow>
                \<exists>n r. recurseHierarchy n srv s st = Some r"
    and fin: "finite K"
  shows "card (K - set (visitedSpaces st)) \<le> b \<Longrightarrow> \<exists>n r. forRooms n srv rs st = Some r"
proof (induction rs arbitrary: st)
  case Nil
  show ?case by simp
next
  case (Cons room rest)
  show ?case
  proof (cases "isSpace room")
    case False
    have "card (K - set (visitedSpaces (st\<lparr>allRooms := allRooms st @ [mk_metadata room]\<rparr>))) \<le> b"
      using Cons.prems by simp
    from Cons.IH [OF this] False show ?thesis by simp
  next
    case True
    from R [OF Cons.prems] obtain n1 r1 where r1: "recurseHierarchy n1 srv (hr_room_id room) st = Some r1"
      by blast
    obtain e1 st1 where p: "r1 = (e1, st1)" by (cases r1)
    show ?thesis
    proof (cases e1)
      case (Some err)
      with True r1 p have "forRooms n1 srv (room # rest) st = Some (Some err, st1)" by simp
      then show ?thesis by blast
    next
      case None
      have "card (K - set (visitedSpaces st1)) \<le> b"
        using unvisited_shrinks [OF fin visited_grows(1) Cons.prems] r1 p by blast
      from Cons.IH [OF this] obtain n2 r2 where r2: "forRooms n2 srv rest st1 = Some r2"
        by blast
      have "recurseHierarchy (n1 + n2) srv (hr_room_id room) st = Some (None, st1)"
        using fuel_mono(1) [of n1 srv "hr_room_id room" st n2] r1 p None by simp
      moreover have "forRooms (n1 + n2) srv rest st1 = Some r2"
        using fuel_mono(3) [of n2 srv rest st1 n1] r2 by (simp add: add.commute)
      ultimately have "forRooms (n1 + n2) srv (room # rest) st = Some r2"
        using True by simp
      then show ?thesis by blast
    qed
  qed
qed

text \<open>The homeserver of a finite space graph: what its answers look like.\<close>

lemma server_of_unknown: "map_of G s = None \<Longrightarrow> \<exists>err. server_of G s from = Inl err"
  by (simp add: server_of_def)

lemma server_of_page:
  assumes "server_of G s from = Inr resp"
  obtains pages where "map_of G s = Some pages" and "page_index from < length pages"
    and "next_batch resp = (if Suc (page_index from) < length pages
                            then Some (page_token (Suc (page_index from))) else None)"
    and "pages ! page_index from = Inr (rooms_or_empty resp)"
  using assms
  by (auto simp: server_of_def rooms_or_empty_def split: option.splits if_splits sum.splits)

lemma page_index_token [simp]: "page_index (Some (page_token i)) = i"
  by (simp add: page_index_def page_token_def)

lemma truthy_token [simp]: "truthy (Some (page_token (Suc i)))"
  by (simp add: truthy_def page_token_def)

lemma page_index_from [simp]: "page_index (if truthy nb then nb else None) = page_index nb"
  by (auto simp: page_index_def truthy_def split: option.splits)

text \<open>Under the same assumption the loop over the pages of a space returns.\<close>

lemma doWhile_terminates:
  assumes R: "\<And>s st. card (fst ` set G - set (visitedSpaces st)) \<le> b \<Longrightarrow>
                \<exists>n r. recurseHierarchy n (server_of G) s st = Some r"
  shows "card (fst ` set G - set (visitedSpaces st)) \<le> b \<Longrightarrow>
         \<exists>n r. doWhile n (server_of G) s nb st = Some r"
proof (induction "(case map_of G s of None \<Rightarrow> 0 | Some pages \<Rightarrow> length pages) - page_index nb"
    arbitrary: nb st rule: less_induct)
  case less
  let ?srv = "server_of G"
  let ?from = "if truthy nb then nb else None"
  let ?st1 = "st\<lparr>requested := requested st @ [(s, ?from)]\<rparr>"
  show ?case
  proof (cases "?srv s ?from")
    case (Inl err)
    then have "doWhile (Suc 0) ?srv s nb st = Some (Some err, ?st1)"
      by (simp add: doWhile_Suc del: doWhile.simps)
    then show ?thesis by blast
  next
    case (Inr resp)
    have c1: "card (fst ` set G - set (visitedSpaces ?st1)) \<le> b"
      using less.prems by simp
    have "\<exists>n r. forRooms n ?srv (rooms_or_empty resp) ?st1 = Some r"
      by (rule forRooms_terminates [where K = "fst ` set G" and b = b, OF R _ c1]) simp_all
    then obtain n1 r1 where f: "forRooms n1 ?srv (rooms_or_empty resp) ?st1 = Some r1"
      by (elim exE)
    obtain e1 st2 where p: "r1 = (e1, st2)" by (cases r1)
    show ?thesis
    proof (cases "e1 = None \<and> truthy (next_batch resp)")
      case False
      then have "\<exists>r. doWhile (Suc n1) ?srv s nb st = Some r"
        using Inr f p by (cases e1) (auto simp add: doWhile_Suc simp del: doWhile.simps)
      then show ?thesis by blast
    next
      case True
      from Inr obtain pages where m: "map_of G s = Some pages"
        and i: "page_index ?from < length pages"
        and nx: "next_batch resp = (if Suc (page_index ?from) < length pages
                            then Some (page_token (Suc (page_index ?from))) else None)"
        by (rule server_of_page)
      have nx0: "next_batch resp = (if Suc (page_index nb) < length pages
                            then Some (page_token (Suc (page_index nb))) else None)"
        using nx unfolding page_index_from .
      have i': "Suc (page_index nb) < length pages"
      proof (rule ccontr)
        assume "\<not> Suc (page_index nb) < length pages"
        with nx0 have "next_batch resp = None" by simp
        with True show False by (simp add: truthy_def)
      qed
      with nx0 have nx': "next_batch resp = Some (page_token (Suc (page_index nb)))"
        by simp
      have dec: "(case map_of G s of None \<Rightarrow> 0 | Some pages \<Rightarrow> length pages) - page_index (next_batch resp)
            < (case map_of G s of None \<Rightarrow> 0 | Some pages \<Rightarrow> length pages) - page_index nb"
        using m nx' i' by simp
      have "card (fst ` set G - set (visitedSpaces st2)) \<le> b"
        using unvisited_shrinks [OF _ visited_grows(2) c1] f p by blast
      from less.hyps [OF dec this] obtain n2 r2
        where d: "doWhile n2 ?srv s (next_batch resp) st2 = Some r2"
        by blast
      have "forRooms (n1 + n2) ?srv (rooms_or_empty resp) ?st1 = Some (None, st2)"
        using fuel_mono(3) [of n1 ?srv "rooms_or_empty resp" ?st1 n2] f p True by simp
      moreover have "doWhile (n1 + n2) ?srv s (next_batch resp) st2 = Some r2"
        using fuel_mono(2) [of n2 ?srv s "next_batch resp" st2 n1] d by (simp add: add.commute)
      ultimately have "doWhile (Suc (n1 + n2)) ?srv s nb st = Some r2"
        using Inr True by (simp add: doWhile_Suc del: doWhile.simps)
      then show ?thesis by blast
    qed
  qed
qed

text \<open>So every call of \<open>recurseHierarchy\<close> returns, by induction on the unvisited spaces.\<close>

lemma recurseHierarchy_terminates:
  "card (fst ` set G - set (visitedSpaces st)) \<le> b \<Longrightarrow>
   \<exists>n r. recurseHierarchy n (server_of G) s st = Some r"
proof (induction b arbitrary: s st rule: less_induct)
  case (less b)
  let ?srv = "server_of G"
  let ?st0 = "st\<lparr>visitedSpaces := set_add s (visitedSpaces st)\<rparr>"
  show ?case
  proof (cases "s \<in> set (visitedSpaces st)")
    case True
    then have "recurseHierarchy (Suc 0) ?srv s st = Some (None, st)" by simp
    then show ?thesis by blast
  next
    case False
    have "\<exists>n r. doWhile n ?srv s None ?st0 = Some r"
    proof (cases "s \<in> fst ` set G")
      case False
      then have "map_of G s = None"
        by (simp add: map_of_eq_None_iff)
      then obtain err where "?srv s None = Inl err"
        using server_of_unknown by blast
      then have "doWhile (Suc 0) ?srv s None ?st0 =
                   Some (Some err, ?st0\<lparr>requested := requested ?st0 @ [(s, None)]\<rparr>)"
        by (simp add: doWhile_Suc truthy_def del: doWhile.simps)
      then show ?thesis by blast
    next
      case True
      with \<open>s \<notin> set (visitedSpaces st)\<close>
      have "card (fst ` set G - set (visitedSpaces ?st0)) < card (fst ` set G - set (visitedSpaces st))"
        by (intro psubset_card_mono) (auto simp: set_add_def)
      with less.prems have b': "b - 1 < b"
        and c: "card (fst ` set G - set (visitedSpaces ?st0)) \<le> b - 1"
        by arith+
      have "\<And>s st. card (fst ` set G - set (visitedSpaces st)) \<le> b - 1 \<Longrightarrow>
                \<exists>n r. recurseHierarchy n ?srv s st = Some r"
        using less.IH [OF b'] by blast
      from doWhile_terminates [of G "b - 1", OF this c] show ?thesis .
    qed
    then obtain n r where "doWhile n ?srv s None ?st0 = Some r" by blast
    with False have "recurseHierarchy (Suc n) ?srv s st = Some r" by simp
    then show ?thesis by blast
  qed
qed

lemma fetch_terminates:
  "\<exists>n r. \<forall>k. fetchRoomsInSpace (n + k) (server_of G) root visited = Some r"
proof -
  obtain n r where "recurseHierarchy n (server_of G) root
      \<lparr>visitedSpaces = visited, allRooms = [], requested = []\<rparr> = Some r"
    using recurseHierarchy_terminates [OF order_refl] by blast
  then have "\<forall>k. fetchRoomsInSpace (n + k) (server_of G) root visited = Some r"
    using fuel_mono(1) [rule_format] by (simp add: fetchRoomsInSpace_def)
  then show ?thesis by blast
qed
text \<open>
  C4. On the homeserver of any finite space graph, with or without reference cycles,
  \<open>fetchRoomsInSpace\<close> returns: some amount of fuel suffices, and more fuel gives the same
  result. On any homeserver, a traversal that returns has sent the first request of
  every space at most once, and when no request failed it has sent it exactly once for
  every space that can be reached from the root through sub-space entries.
\<close>

theorem cycle_safe_traversal:
  "(\<exists>n r. \<forall>k. fetchRoomsInSpace (n + k) (server_of G) root [] = Some r) \<and>
   (\<forall>n srv logged st. fetchRoomsInSpace n srv root [] = Some (logged, st) \<longrightarrow>
      distinct (expansions st) \<and>
      (logged = None \<longrightarrow>
         (\<forall>s. (child_space srv)\<^sup>*\<^sup>* root s \<longrightarrow> count_list (expansions st) s = 1)))"
  using fetch_terminates [of G root "[]"] fetch_expands_once [of _ _ root] by blast

lemma fetch_two_cycle:
  "fetchRoomsInSpace 10 (server_of two_cycle) ''A'' [] =
     Some (None, \<lparr> visitedSpaces = [''A'', ''B''],
                   allRooms = [plain ''r2'', plain ''r1''],
                   requested = [(''A'', None), (''B'', None)] \<rparr>)"
  by (simp add: example_defs eval_defs)

lemma two_cycle_child: "child_space (server_of two_cycle) ''A'' ''B''"
proof -
  have "server_of two_cycle ''A'' None =
          Inr \<lparr> rooms = Some [subspace ''B'', leaf ''r1''], next_batch = None \<rparr>"
    by (simp add: two_cycle_def server_of_def page_index_def)
  moreover have "pages_from (server_of two_cycle) ''A'' None None"
    by (rule pages_from.first_page)
  ultimately have "listed_from (server_of two_cycle) ''A'' None (subspace ''B'')"
    unfolding listed_from_def by (intro exI conjI) (assumption, assumption, simp add: rooms_or_empty_def)
  then show ?thesis
    unfolding child_space_def by (intro exI conjI) (assumption, simp_all add: isSpace_def subspace_def)
qed

theorem cycle_safe_traversal_witness:
  "(\<exists>n r. \<forall>k. fetchRoomsInSpace (n + k) (server_of two_cycle) ''A'' [] = Some r) \<and>
   (\<exists>st. fetchRoomsInSpace 10 (server_of two_cycle) ''A'' [] = Some (None, st) \<and>
      distinct (expansions st) \<and>
      count_list (expansions st) ''A'' = 1 \<and> count_list (expansions st) ''B'' = 1)"
proof -
  note t = cycle_safe_traversal [of two_cycle "''A''"]
  from t have ends: "\<exists>n r. \<forall>k. fetchRoomsInSpace (n + k) (server_of two_cycle) ''A'' [] = Some r"
    by (rule conjunct1)
  from t have safe: "\<And>n srv logged st s. fetchRoomsInSpace n srv ''A'' [] = Some (logged, st) \<Longrightarrow>
      distinct (expansions st) \<and>
      (logged = None \<longrightarrow> ((child_space srv)\<^sup>*\<^sup>* ''A'' s \<longrightarrow> count_list (expansions st) s = 1))"
    by blast
  have a: "(child_space (server_of two_cycle))\<^sup>*\<^sup>* ''A'' ''A''" by simp
  have b: "(child_space (server_of two_cycle))\<^sup>*\<^sup>* ''A'' ''B''"
    using two_cycle_child by (rule r_into_rtranclp)
  from safe [OF fetch_two_cycle, of "''A''"] safe [OF fetch_two_cycle, of "''B''"] a b ends
  show ?thesis
    using fetch_two_cycle by blast
qed
subsection \<open>Traversal: pagination\<close>

text \<open>The leaf rooms of a list of entries are among the rooms after a run over it.\<close>

lemma run_leaves:
  "recursed srv s st e st' \<Longrightarrow> True"
  "looped srv s nb st e st' \<Longrightarrow> True"
  "iterated srv rs st e st' \<Longrightarrow> e = None \<longrightarrow>
     (\<forall>room\<in>set rs. \<not> isSpace room \<longrightarrow> mk_metadata room \<in> set (allRooms st'))"
proof (induction rule: recursed_looped_iterated.inducts)
  case (leaf_room room rest st e st')
  have "prefix (allRooms st @ [mk_metadata room]) (allRooms st')"
    using leaf_room run_grows(3) [of srv rest "st\<lparr>allRooms := allRooms st @ [mk_metadata room]\<rparr>" e st']
    by simp
  then have "set (allRooms st @ [mk_metadata room]) \<subseteq> set (allRooms st')"
    by (rule set_mono_prefix)
  then have "mk_metadata room \<in> set (allRooms st')"
    by simp
  with leaf_room show ?case by simp
qed auto

text \<open>
  The requests of the loop of a space whose listing is \<open>pages\<close>, and the leaf rooms it
  collects, when the loop ends without an exception.
\<close>

lemma looped_pages:
  assumes "page_chain srv s (if truthy nb then nb else None) pages"
    and "looped srv s nb st None st'" and "s \<in> set (visitedSpaces st)"
  shows "\<exists>new. requested st' = requested st @ new \<and>
           filter (\<lambda>q. fst q = s) new =
             map (Pair s) ((if truthy nb then nb else None) # map next_batch (butlast pages)) \<and>
           (\<forall>p\<in>set pages. \<forall>room\<in>set (rooms_or_empty p).
              \<not> isSpace room \<longrightarrow> mk_metadata room \<in> set (allRooms st'))"
  using assms
proof (induction pages arbitrary: nb st)
  case Nil
  then show ?case by simp
next
  case (Cons p ps)
  let ?from = "if truthy nb then nb else None"
  let ?st1 = "st\<lparr>requested := requested st @ [(s, ?from)]\<rparr>"
  have sp: "srv s ?from = Inr p"
    using Cons.prems(1) by (cases ps) simp_all
  have page: "\<And>st2. iterated srv (rooms_or_empty p) ?st1 None st2 \<Longrightarrow>
      (\<exists>new1. requested st2 = requested st @ (s, ?from) # new1 \<and> filter (\<lambda>q. fst q = s) new1 = []) \<and>
      (\<forall>room\<in>set (rooms_or_empty p). \<not> isSpace room \<longrightarrow> mk_metadata room \<in> set (allRooms st2)) \<and>
      s \<in> set (visitedSpaces st2)"
  proof -
    fix st2
    assume it: "iterated srv (rooms_or_empty p) ?st1 None st2"
    from run_requests(3) [OF it] obtain new1
      where n1: "requested st2 = requested ?st1 @ new1"
        and s1: "\<forall>q\<in>set new1. fst q \<notin> set (visitedSpaces ?st1)"
      by blast
    have "filter (\<lambda>q. fst q = s) new1 = []"
      using s1 Cons.prems(3) by (auto simp: filter_empty_conv)
    moreover have "s \<in> set (visitedSpaces st2)"
      using run_grows(3) [OF it] Cons.prems(3) by auto
    ultimately show "(\<exists>new1. requested st2 = requested st @ (s, ?from) # new1 \<and>
                        filter (\<lambda>q. fst q = s) new1 = []) \<and>
      (\<forall>room\<in>set (rooms_or_empty p). \<not> isSpace room \<longrightarrow> mk_metadata room \<in> set (allRooms st2)) \<and>
      s \<in> set (visitedSpaces st2)"
      using n1 run_leaves(3) [OF it] by simp
  qed
  from Cons.prems(2) show ?case
  proof (cases rule: looped.cases)
    case (last_page resp)
    with sp have r: "resp = p" by simp
    with last_page Cons.prems(1) have "ps = []"
      by (cases ps) simp_all
    with page [of st'] last_page r show ?thesis
      by auto
  next
    case (more_pages resp st2)
    with sp have r: "resp = p" by simp
    with more_pages Cons.prems(1) obtain q qs where ps: "ps = q # qs"
      and ch: "page_chain srv s (next_batch p) (q # qs)"
      by (cases ps) simp_all
    from page [of st2] more_pages r obtain new1
      where n1: "requested st2 = requested st @ (s, ?from) # new1"
        and f1: "filter (\<lambda>q. fst q = s) new1 = []"
        and l1: "\<forall>room\<in>set (rooms_or_empty p). \<not> isSpace room \<longrightarrow> mk_metadata room \<in> set (allRooms st2)"
        and v2: "s \<in> set (visitedSpaces st2)"
      by auto
    have t: "truthy (next_batch p)" using more_pages r by simp
    have lp: "looped srv s (next_batch p) st2 None st'" using more_pages r by simp
    from Cons.IH [of "next_batch p" st2] ch t lp v2 ps obtain new2
      where n2: "requested st' = requested st2 @ new2"
        and f2: "filter (\<lambda>q. fst q = s) new2 = map (Pair s) (next_batch p # map next_batch (butlast (q # qs)))"
        and l2: "\<forall>p\<in>set (q # qs). \<forall>room\<in>set (rooms_or_empty p).
              \<not> isSpace room \<longrightarrow> mk_metadata room \<in> set (allRooms st')"
      by auto
    have "set (allRooms st2) \<subseteq> set (allRooms st')"
      using run_grows(2) [OF lp] by (auto dest: set_mono_prefix)
    with l1 l2 ps have "\<forall>p\<in>set (p # ps). \<forall>room\<in>set (rooms_or_empty p).
              \<not> isSpace room \<longrightarrow> mk_metadata room \<in> set (allRooms st')"
      by auto
    moreover have "requested st' = requested st @ ((s, ?from) # new1 @ new2)"
      using n1 n2 by simp
    moreover have "filter (\<lambda>q. fst q = s) ((s, ?from) # new1 @ new2) =
        map (Pair s) (?from # map next_batch (butlast (p # ps)))"
      using f1 f2 ps by simp
    ultimately show ?thesis by blast
  qed
qed

text \<open>When all entries are leaf rooms, the loops return, and their results are these.\<close>

lemma forRooms_leaves:
  "\<forall>room\<in>set rs. \<not> isSpace room \<Longrightarrow>
   forRooms n srv rs st = Some (None, st\<lparr>allRooms := allRooms st @ map mk_metadata rs\<rparr>)"
  by (induction rs arbitrary: st) simp_all

lemma doWhile_leaf_pages:
  assumes "page_chain srv s (if truthy nb then nb else None) pages"
    and "\<forall>p\<in>set pages. \<forall>room\<in>set (rooms_or_empty p). \<not> isSpace room"
  shows "doWhile (length pages + k) srv s nb st =
     Some (None, st\<lparr> allRooms := allRooms st @ concat (map (\<lambda>p. map mk_metadata (rooms_or_empty p)) pages),
                     requested := requested st @
                        map (Pair s) ((if truthy nb then nb else None) # map next_batch (butlast pages)) \<rparr>)"
  using assms
proof (induction pages arbitrary: nb st)
  case Nil
  then show ?case by simp
next
  case (Cons p ps)
  let ?from = "if truthy nb then nb else None"
  have sp: "srv s ?from = Inr p"
    using Cons.prems(1) by (cases ps) simp_all
  have lv: "\<forall>room\<in>set (rooms_or_empty p). \<not> isSpace room"
    using Cons.prems(2) by simp
  show ?case
  proof (cases ps)
    case Nil
    with Cons.prems(1) have "\<not> truthy (next_batch p)" by simp
    with sp Nil show ?thesis
      by (simp add: doWhile_Suc forRooms_leaves [OF lv] del: doWhile.simps)
  next
    case (Cons q qs)
    with Cons.prems(1) have t: "truthy (next_batch p)"
      and ch: "page_chain srv s (if truthy (next_batch p) then next_batch p else None) ps"
      by simp_all
    have rest: "\<forall>p\<in>set ps. \<forall>room\<in>set (rooms_or_empty p). \<not> isSpace room"
      using Cons.prems(2) by simp
    have ne: "ps \<noteq> []" using Cons by simp
    have "doWhile (Suc (length ps + k)) srv s nb st =
        doWhile (length ps + k) srv s (next_batch p)
          (st\<lparr>requested := requested st @ [(s, ?from)],
              allRooms := allRooms st @ map mk_metadata (rooms_or_empty p)\<rparr>)"
      using sp t by (simp add: doWhile_Suc forRooms_leaves [OF lv] del: doWhile.simps)
    also have "\<dots> = Some (None, st\<lparr> allRooms := allRooms st @
                         concat (map (\<lambda>p. map mk_metadata (rooms_or_empty p)) (p # ps)),
                     requested := requested st @
                        map (Pair s) (?from # map next_batch (butlast (p # ps))) \<rparr>)"
      unfolding Cons.IH [OF ch rest] using t ne by simp
    finally show ?thesis by simp
  qed
qed
text \<open>
  C5. Let the listing of a space be a chain of pages: the request without a token is
  answered by the first page, each page but the last carries the token that is answered
  by the next, and the last carries none. A traversal of the space that ends without an
  exception has asked for exactly these pages, in order, each request after the first
  with the token of the page before it, and its result holds the leaf rooms of all
  pages. When all entries are leaf rooms the traversal does return (fuel: one more than
  the number of pages), and the result is the concatenation of the pages.
\<close>

theorem pagination_complete:
  assumes "page_chain srv s None pages" and "s \<notin> set visited"
  shows "(fetchRoomsInSpace n srv s visited = Some (None, st) \<longrightarrow>
            filter (\<lambda>q. fst q = s) (requested st) = map (Pair s) (None # map next_batch (butlast pages)) \<and>
            (\<forall>p\<in>set pages. \<forall>room\<in>set (rooms_or_empty p).
               \<not> isSpace room \<longrightarrow> mk_metadata room \<in> set (allRooms st))) \<and>
         ((\<forall>p\<in>set pages. \<forall>room\<in>set (rooms_or_empty p). \<not> isSpace room) \<longrightarrow>
            (\<forall>k. fetchRoomsInSpace (Suc (length pages) + k) srv s visited =
               Some (None, \<lparr> visitedSpaces = visited @ [s],
                             allRooms = concat (map (\<lambda>p. map mk_metadata (rooms_or_empty p)) pages),
                             requested = map (Pair s) (None # map next_batch (butlast pages)) \<rparr>)))"
proof (intro conjI impI allI)
  let ?st0 = "\<lparr>visitedSpaces = visited, allRooms = [], requested = []\<rparr>"
  assume f: "fetchRoomsInSpace n srv s visited = Some (None, st)"
  then have "recursed srv s ?st0 None st"
    using fuel_run(1) [of n srv s ?st0] by (simp add: fetchRoomsInSpace_def)
  then have l: "looped srv s None (?st0\<lparr>visitedSpaces := visitedSpaces ?st0 @ [s]\<rparr>) None st"
    using assms(2) by (cases rule: recursed.cases) simp_all
  have c: "page_chain srv s (if truthy None then None else None) pages"
    using assms(1) by simp
  from looped_pages [OF c l] obtain new
    where "requested st = new"
      and "filter (\<lambda>q. fst q = s) new = map (Pair s) (None # map next_batch (butlast pages))"
      and lv: "\<forall>p\<in>set pages. \<forall>room\<in>set (rooms_or_empty p).
              \<not> isSpace room \<longrightarrow> mk_metadata room \<in> set (allRooms st)"
    by (auto simp: truthy_def)
  then show "filter (\<lambda>q. fst q = s) (requested st) = map (Pair s) (None # map next_batch (butlast pages))"
    by simp
  show "\<forall>p\<in>set pages. \<forall>room\<in>set (rooms_or_empty p).
          \<not> isSpace room \<longrightarrow> mk_metadata room \<in> set (allRooms st)"
    by (rule lv)
next
  fix k
  assume lv: "\<forall>p\<in>set pages. \<forall>room\<in>set (rooms_or_empty p). \<not> isSpace room"
  have c: "page_chain srv s (if truthy None then None else None) pages"
    using assms(1) by simp
  show "fetchRoomsInSpace (Suc (length pages) + k) srv s visited =
               Some (None, \<lparr> visitedSpaces = visited @ [s],
                             allRooms = concat (map (\<lambda>p. map mk_metadata (rooms_or_empty p)) pages),
                             requested = map (Pair s) (None # map next_batch (butlast pages)) \<rparr>)"
    using assms(2)
    by (simp add: fetchRoomsInSpace_def set_add_def doWhile_leaf_pages [OF c lv] truthy_def)
qed

lemma fetch_three_pages:
  "fetchRoomsInSpace 10 (server_of three_pages) ''S'' [] =
     Some (None, \<lparr> visitedSpaces = [''S''],
                   allRooms = [plain ''r1'', plain ''r2'', plain ''r3'', plain ''r4''],
                   requested = [(''S'', None), (''S'', Some ''t''), (''S'', Some ''tt'')] \<rparr>)"
  by (simp add: example_defs eval_defs)

theorem pagination_complete_witness:
  "filter (\<lambda>q. fst q = ''S'')
      [(''S'', None), (''S'', Some ''t''), (''S'', Some ''tt'')] =
     map (Pair ''S'') [None, Some ''t'', Some ''tt''] \<and>
   mk_metadata (leaf ''r4'') \<in> set [plain ''r1'', plain ''r2'', plain ''r3'', plain ''r4''] \<and>
   fetchRoomsInSpace 4 (server_of three_pages) ''S'' [] =
     Some (None, \<lparr> visitedSpaces = [''S''],
                   allRooms = [plain ''r1'', plain ''r2'', plain ''r3'', plain ''r4''],
                   requested = [(''S'', None), (''S'', Some ''t''), (''S'', Some ''tt'')] \<rparr>)"
proof -
  let ?p1 = "\<lparr> rooms = Some [leaf ''r1'', leaf ''r2''], next_batch = Some ''t'' \<rparr>"
  let ?p2 = "\<lparr> rooms = Some [leaf ''r3''], next_batch = Some ''tt'' \<rparr>"
  let ?p3 = "\<lparr> rooms = Some [leaf ''r4''], next_batch = None \<rparr>"
  let ?st = "\<lparr> visitedSpaces = [''S''],
                allRooms = [plain ''r1'', plain ''r2'', plain ''r3'', plain ''r4''],
                requested = [(''S'', None), (''S'', Some ''t''), (''S'', Some ''tt'')] \<rparr>"
  have c: "page_chain (server_of three_pages) ''S'' None [?p1, ?p2, ?p3]"
    by (simp add: three_pages_def server_of_def page_index_def page_token_def truthy_def)
  have v: "''S'' \<notin> set []" by simp
  have l: "\<forall>p\<in>set [?p1, ?p2, ?p3]. \<forall>room\<in>set (rooms_or_empty p). \<not> isSpace room"
    by (simp add: rooms_or_empty_def isSpace_def leaf_def)
  have m: "mk_metadata (leaf ''r1'') = plain ''r1''" "mk_metadata (leaf ''r2'') = plain ''r2''"
    "mk_metadata (leaf ''r3'') = plain ''r3''" "mk_metadata (leaf ''r4'') = plain ''r4''"
    by (simp_all add: mk_metadata_def leaf_def plain_def or_null_def truthy_def)
  note t = pagination_complete [OF c v, where n = 10 and st = ?st]
  have a: "filter (\<lambda>q. fst q = ''S'') (requested ?st) =
             map (Pair ''S'') (None # map next_batch (butlast [?p1, ?p2, ?p3]))"
    using t [THEN conjunct1, THEN mp, OF fetch_three_pages] by (rule conjunct1)
  have b: "\<forall>k. fetchRoomsInSpace (Suc (length [?p1, ?p2, ?p3]) + k) (server_of three_pages) ''S'' [] =
               Some (None, \<lparr> visitedSpaces = [] @ [''S''],
                             allRooms = concat (map (\<lambda>p. map mk_metadata (rooms_or_empty p)) [?p1, ?p2, ?p3]),
                             requested = map (Pair ''S'') (None # map next_batch (butlast [?p1, ?p2, ?p3])) \<rparr>)"
    using t [THEN conjunct2, THEN mp, OF l] .
  have "fetchRoomsInSpace 4 (server_of three_pages) ''S'' [] = Some (None, ?st)"
    using b [rule_format, of 0] by (simp add: rooms_or_empty_def m numeral_nat)
  moreover have "mk_metadata (leaf ''r4'') \<in> set (allRooms ?st)"
    using t [THEN conjunct1, THEN mp, OF fetch_three_pages, THEN conjunct2]
    by (simp add: rooms_or_empty_def isSpace_def leaf_def)
  ultimately show ?thesis
    using a by simp
qed
end
